theory Spec2Isabelle
  imports Complex_Main
begin

section \<open>The board: class Map of map.js\<close>

text \<open>
  A cell is the four-slot array of the source:
  slot 0 the visual number, slot 1 the bomb mark, slot 2 the flag mark, slot 3 the
  covered mark. The grid is indexed \<open>grid[y][x]\<close>. Coordinates are JavaScript
  numbers that may be negative (\<open>startX + dx\<close>), hence \<open>int\<close>.
\<close>

type_synonym cell = "int list"

record Map_obj =
  w :: int
  h :: int
  grid :: "cell list list"

text \<open>The constructor: \<open>h\<close> rows of \<open>w\<close> fresh cells \<open>[0, 0, 0, 1]\<close>.\<close>

definition Map_new :: "int \<Rightarrow> int \<Rightarrow> Map_obj" where
  "Map_new width height =
     \<lparr>w = width, h = height,
      grid = replicate (nat height) (replicate (nat width) [0, 0, 0, 1])\<rparr>"

definition inMap :: "Map_obj \<Rightarrow> int \<Rightarrow> int \<Rightarrow> bool" where
  "inMap m x y = (x \<ge> 0 \<and> y \<ge> 0 \<and> x < w m \<and> y < h m)"

text \<open>
  \<open>getCell\<close> returns \<open>undefined\<close> (here \<open>None\<close>) outside the map. Its second early
  return, on a missing button element, does not fire: \<open>Game.initialize\<close> creates the
  button \<open>cell-x-y\<close> for every cell of the map it has just constructed. Every call in
  the source passes a slot index from 0 to 3.
\<close>

definition getCell :: "Map_obj \<Rightarrow> int \<Rightarrow> int \<Rightarrow> nat \<Rightarrow> int option" where
  "getCell m x y i =
     (if \<not> inMap m x y then None else Some (grid m ! nat y ! nat x ! i))"

text \<open>
  \<open>setCell\<close> writes one slot; \<open>updateCell\<close>, which it calls, only renders the cell
  and is left out.
\<close>

definition setCell :: "Map_obj \<Rightarrow> int \<Rightarrow> int \<Rightarrow> nat \<Rightarrow> int \<Rightarrow> Map_obj" where
  "setCell m x y i v =
     (if \<not> inMap m x y then m
      else m\<lparr>grid := (grid m)[nat y := (grid m ! nat y)[nat x := (grid m ! nat y ! nat x)[i := v]]]\<rparr>)"

text \<open>All coordinates of the map, in the order of the loops \<open>for y ... for x ...\<close>.\<close>

definition cells_yx :: "Map_obj \<Rightarrow> (int \<times> int) list" where
  "cells_yx m = [(x, y). y \<leftarrow> [0 .. h m - 1], x \<leftarrow> [0 .. w m - 1]]"

subsection \<open>generateBombs\<close>

text \<open>The forbidden set holds the keys \<open>x,y\<close> of the in-map cells around the start.\<close>

definition forbidden_zone :: "Map_obj \<Rightarrow> int \<Rightarrow> int \<Rightarrow> (int \<times> int) list" where
  "forbidden_zone m startX startY =
     [(startX + dx, startY + dy). dy \<leftarrow> [-1, 0, 1], dx \<leftarrow> [-1, 0, 1],
        inMap m (startX + dx) (startY + dy)]"

text \<open>
  One step of the inner loops: the number of an in-map cell goes up by one. Under the
  guard \<open>inMap\<close> the read always yields a number.
\<close>

definition bumpCell :: "Map_obj \<Rightarrow> int \<Rightarrow> int \<Rightarrow> Map_obj" where
  "bumpCell m cx cy =
     (if inMap m cx cy then
        (case getCell m cx cy 0 of Some n \<Rightarrow> setCell m cx cy 0 (n + 1) | None \<Rightarrow> m)
      else m)"

definition bumpAround :: "Map_obj \<Rightarrow> int \<Rightarrow> int \<Rightarrow> Map_obj" where
  "bumpAround m x y =
     foldl (\<lambda>m' (dx, dy). bumpCell m' (x + dx) (y + dy)) m
       [(dx, dy). dy \<leftarrow> [-1, 0, 1], dx \<leftarrow> [-1, 0, 1]]"

text \<open>
  The \<open>while (count < bombCount)\<close> loop. Each iteration consumes one pair
  \<open>(u, v)\<close> of values of \<open>Math.random()\<close> and draws
  \<open>x = floor (u * w)\<close>, \<open>y = floor (v * h)\<close>. The loop has no bound of its own:
  when the supplied draws run out before enough bombs are placed the result is
  \<open>None\<close>.
\<close>

fun placeLoop ::
  "int \<Rightarrow> int \<Rightarrow> (int \<times> int) list \<Rightarrow> (rat \<times> rat) list \<Rightarrow> Map_obj \<Rightarrow> Map_obj option" where
  "placeLoop count bombCount forbidden [] m =
     (if count < bombCount then None else Some m)"
| "placeLoop count bombCount forbidden ((u, v) # ds) m =
     (if count < bombCount then
        (let x = \<lfloor>u * of_int (w m)\<rfloor>; y = \<lfloor>v * of_int (h m)\<rfloor> in
         if (x, y) \<in> set forbidden then placeLoop count bombCount forbidden ds m
         else if getCell m x y 1 = Some 1 then placeLoop count bombCount forbidden ds m
         else placeLoop (count + 1) bombCount forbidden ds
                (bumpAround (setCell m x y 1 1) x y))
      else Some m)"

definition generateBombs ::
  "int \<Rightarrow> int \<Rightarrow> int \<Rightarrow> (rat \<times> rat) list \<Rightarrow> Map_obj \<Rightarrow> Map_obj option" where
  "generateBombs bombCount startX startY draws m =
     placeLoop 0 bombCount (forbidden_zone m startX startY) draws m"

subsection \<open>revealBombs and checkWin\<close>

definition revealBombs :: "Map_obj \<Rightarrow> Map_obj" where
  "revealBombs m =
     foldl (\<lambda>m' (x, y). if getCell m' x y 1 = Some 1 then setCell m' x y 3 0 else m') m
       (cells_yx m)"

definition checkWin :: "Map_obj \<Rightarrow> bool" where
  "checkWin m =
     list_all (\<lambda>(x, y). \<not> (getCell m x y 1 = Some 0 \<and> getCell m x y 3 = Some 1)) (cells_yx m)"

subsection \<open>floodFill and its helper\<close>

text \<open>
  The state threaded through the recursion of \<open>_flood\<close>: the map, the shared
  \<open>visited\<close> array (indexed \<open>visited[x][y]\<close>), and a log of the arguments of
  every invocation of \<open>_flood\<close>, in order. The log is not in the source; it records
  which cells are processed.
\<close>

record flood_st =
  fmap :: Map_obj
  visited :: "bool list list"
  calls :: "(int \<times> int) list"

text \<open>
  \<open>flood\<close> embeds \<open>_flood\<close>; \<open>flood_nbrs\<close> is its double loop over \<open>dx\<close> and
  \<open>dy\<close>. The first argument bounds the depth of the recursion (the call stack):
  at depth zero the result is \<open>None\<close>. Every call site guards the coordinates with
  \<open>inMap\<close>, so the writes to \<open>visited\<close> are in range.
\<close>

fun flood :: "nat \<Rightarrow> int \<Rightarrow> int \<Rightarrow> flood_st \<Rightarrow> flood_st option"
  and flood_nbrs :: "nat \<Rightarrow> int \<Rightarrow> int \<Rightarrow> (int \<times> int) list \<Rightarrow> flood_st \<Rightarrow> flood_st option" where
  "flood 0 x y s = None"
| "flood (Suc n) x y s =
     (let s1 = s\<lparr>fmap := setCell (fmap s) x y 3 0,
                 visited := (visited s)[nat x := (visited s ! nat x)[nat y := True]],
                 calls := calls s @ [(x, y)]\<rparr>
      in if getCell (fmap s1) x y 0 \<noteq> Some 0 then Some s1
         else flood_nbrs n x y [(dx, dy). dx \<leftarrow> [-1, 0, 1], dy \<leftarrow> [-1, 0, 1]] s1)"
| "flood_nbrs n x y [] s = Some s"
| "flood_nbrs n x y ((dx, dy) # ds) s =
     (if dx = 0 \<and> dy = 0 then flood_nbrs n x y ds s
      else if inMap (fmap s) (x + dx) (y + dy) \<and> \<not> (visited s ! nat (x + dx) ! nat (y + dy)) then
        (case flood n (x + dx) (y + dy) s of
           None \<Rightarrow> None
         | Some s' \<Rightarrow> flood_nbrs n x y ds s')
      else flood_nbrs n x y ds s)"

definition floodFill_log ::
  "nat \<Rightarrow> Map_obj \<Rightarrow> int \<Rightarrow> int \<Rightarrow> (Map_obj \<times> (int \<times> int) list) option" where
  "floodFill_log depth m startX startY =
     (let empty = (getCell m startX startY 0 = Some 0);
          m1 = setCell m startX startY 3 0
      in if empty then
           (case flood depth startX startY
                   \<lparr>fmap = m1,
                    visited = replicate (nat (w m1)) (replicate (nat (h m1)) False),
                    calls = []\<rparr> of
              None \<Rightarrow> None
            | Some s \<Rightarrow> Some (fmap s, calls s))
         else Some (m1, []))"

definition floodFill :: "nat \<Rightarrow> Map_obj \<Rightarrow> int \<Rightarrow> int \<Rightarrow> Map_obj option" where
  "floodFill depth m startX startY = map_option fst (floodFill_log depth m startX startY)"

section \<open>The match: class Game\<close>

text \<open>
  \<open>status\<close> is the class name that \<open>setStatus\<close> last gave the status element
  (\<open>playing\<close>, \<open>won\<close>, \<open>lost\<close>); it is the only place where the outcome of a match
  is kept. \<open>dead\<close> is initialised and never written again. Width, height and bomb
  count are numbers (\<open>createMap\<close> passes the strings of the input fields, which every
  use coerces to numbers).

  \<open>initialize\<close> overwrites every field, so it is a constant of its arguments.
  \<open>start\<close> returns nothing when \<open>generateBombs\<close> does not complete on the supplied
  draws. \<open>finish\<close> also switches the overlay off and disables every button of the
  grid; the buttons are not part of the state.
\<close>

record Game =
  started :: bool
  dead :: bool
  gmap :: Map_obj
  bombs :: int
  flags :: int
  status :: string

definition initialize :: "int \<Rightarrow> int \<Rightarrow> int \<Rightarrow> Game" where
  "initialize width height bombCount =
     \<lparr>started = False, dead = False, gmap = Map_new width height,
      bombs = bombCount, flags = bombCount, status = ''''\<rparr>"

definition start :: "int \<Rightarrow> int \<Rightarrow> (rat \<times> rat) list \<Rightarrow> Game \<Rightarrow> Game option" where
  "start startX startY draws g =
     (let g1 = g\<lparr>started := True, flags := bombs g\<rparr> in
      case generateBombs (bombs g1) startX startY draws (gmap g1) of
        None \<Rightarrow> None
      | Some m \<Rightarrow> Some (g1\<lparr>gmap := m, status := ''playing''\<rparr>))"

definition finish :: "string \<Rightarrow> Game \<Rightarrow> Game" where
  "finish result g =
     (let g1 = g\<lparr>started := False\<rparr> in
      if result = ''win'' then g1\<lparr>status := ''won''\<rparr>
      else if result = ''lose'' then g1\<lparr>gmap := revealBombs (gmap g1), status := ''lost''\<rparr>
      else g1\<lparr>status := ''lost''\<rparr>)"

definition placeFlag :: "Game \<Rightarrow> bool \<times> Game" where
  "placeFlag g = (if flags g < 1 then (False, g) else (True, g\<lparr>flags := flags g - 1\<rparr>))"

definition removeFlag :: "Game \<Rightarrow> bool \<times> Game" where
  "removeFlag g = (True, g\<lparr>flags := flags g + 1\<rparr>)"

subsection \<open>The click handlers of Map\<close>

text \<open>
  The globals of ai.js that \<open>cellClicked\<close> consults; \<open>None\<close> is
  \<open>typeof ... === 'undefined'\<close>.
\<close>

record ai_env =
  currentTurn :: "string option"
  aiThinking :: "bool option"

definition turn_blocked :: "ai_env \<Rightarrow> bool" where
  "turn_blocked e =
     (if currentTurn e \<noteq> None \<and> currentTurn e = Some ''ai'' then
        (aiThinking e \<noteq> None \<and> aiThinking e = Some True)
      else if currentTurn e \<noteq> None \<and> currentTurn e \<noteq> Some ''player'' then True
      else (aiThinking e \<noteq> None \<and> aiThinking e = Some True))"

text \<open>
  \<open>cellClicked\<close> returns its boolean and the new state. \<open>endPlayerTurn\<close>, called on
  a successful reveal, only changes the globals of ai.js and schedules a timer.
\<close>

definition cellClicked ::
  "ai_env \<Rightarrow> nat \<Rightarrow> int \<Rightarrow> int \<Rightarrow> (rat \<times> rat) list \<Rightarrow> Game \<Rightarrow> (bool \<times> Game) option" where
  "cellClicked e depth x y draws g =
     (if turn_blocked e then Some (False, g)
      else
        (case (if \<not> started g then start x y draws g else Some g) of
           None \<Rightarrow> None
         | Some g1 \<Rightarrow>
             if getCell (gmap g1) x y 2 = Some 1 then Some (False, g1)
             else if getCell (gmap g1) x y 1 = Some 1 then
               Some (False, finish ''lose'' (g1\<lparr>gmap := setCell (gmap g1) x y 3 0\<rparr>))
             else if getCell (gmap g1) x y 3 = Some 1 then
               (case floodFill depth (gmap g1) x y of
                  None \<Rightarrow> None
                | Some m \<Rightarrow>
                    if checkWin m then Some (True, finish ''win'' (g1\<lparr>gmap := m\<rparr>))
                    else Some (True, g1\<lparr>gmap := m\<rparr>))
             else Some (False, g1)))"

definition cellRightClicked :: "int \<Rightarrow> int \<Rightarrow> Game \<Rightarrow> Game" where
  "cellRightClicked x y g =
     (if getCell (gmap g) x y 3 = Some 1 then
        (if getCell (gmap g) x y 2 = Some 0 then
           (case placeFlag g of
              (True, g1) \<Rightarrow> g1\<lparr>gmap := setCell (gmap g1) x y 2 1\<rparr>
            | (False, g1) \<Rightarrow> g1)
         else (case removeFlag g of (r, g1) \<Rightarrow> g1\<lparr>gmap := setCell (gmap g1) x y 2 0\<rparr>))
      else g)"

section \<open>Predicates used in the statements\<close>

text \<open>
  The shape the constructor gives the grid and every operation keeps: \<open>h\<close> rows of
  \<open>w\<close> cells of four slots.
\<close>

definition wf_map :: "Map_obj \<Rightarrow> bool" where
  "wf_map m =
     (length (grid m) = nat (h m) \<and>
      (\<forall>row \<in> set (grid m). length row = nat (w m) \<and> (\<forall>c \<in> set row. length c = 4)))"

text \<open>The values of \<open>Math.random()\<close> lie in \<open>[0, 1)\<close>.\<close>

definition draws_ok :: "(rat \<times> rat) list \<Rightarrow> bool" where
  "draws_ok ds = (\<forall>(u, v) \<in> set ds. 0 \<le> u \<and> u < 1 \<and> 0 \<le> v \<and> v < 1)"

text \<open>The cells whose bomb mark is set.\<close>

definition bombCells :: "Map_obj \<Rightarrow> (int \<times> int) list" where
  "bombCells m = filter (\<lambda>(x, y). getCell m x y 1 = Some 1) (cells_yx m)"

text \<open>The in-map cells outside the forbidden zone of a start.\<close>

definition freeCells :: "Map_obj \<Rightarrow> int \<Rightarrow> int \<Rightarrow> (int \<times> int) list" where
  "freeCells m startX startY =
     filter (\<lambda>c. c \<notin> set (forbidden_zone m startX startY)) (cells_yx m)"

text \<open>The nine offsets of a 3 by 3 block, and the eight of a neighbourhood.\<close>

definition offsets9 :: "(int \<times> int) list" where
  "offsets9 = [(dx, dy). dy \<leftarrow> [-1, 0, 1], dx \<leftarrow> [-1, 0, 1]]"

definition offsets8 :: "(int \<times> int) list" where
  "offsets8 = filter (\<lambda>d. d \<noteq> (0, 0)) offsets9"

text \<open>
  Brute-force recomputation: the number of mined cells in the 3 by 3 block centred on
  \<open>(x, y)\<close> (the cell itself included), and in its 8-neighbourhood (the cell itself
  excluded). Positions outside the map hold no mine.
\<close>

definition blockMines :: "Map_obj \<Rightarrow> int \<Rightarrow> int \<Rightarrow> nat" where
  "blockMines m x y =
     length (filter (\<lambda>(dx, dy). getCell m (x + dx) (y + dy) 1 = Some 1) offsets9)"

definition adjacentMines :: "Map_obj \<Rightarrow> int \<Rightarrow> int \<Rightarrow> nat" where
  "adjacentMines m x y =
     length (filter (\<lambda>(dx, dy). getCell m (x + dx) (y + dy) 1 = Some 1) offsets8)"

definition counts_block :: "Map_obj \<Rightarrow> bool" where
  "counts_block m =
     (\<forall>(x, y) \<in> set (cells_yx m). getCell m x y 0 = Some (int (blockMines m x y)))"

definition counts_adjacent :: "Map_obj \<Rightarrow> bool" where
  "counts_adjacent m =
     (\<forall>(x, y) \<in> set (cells_yx m). getCell m x y 0 = Some (int (adjacentMines m x y)))"

text \<open>
  For the flood fill: the shape of the \<open>visited\<close> array that \<open>floodFill\<close> builds
  (\<open>w\<close> columns of \<open>h\<close> marks), the in-map cells not yet marked, and the first
  two statements of \<open>_flood\<close> taken together.
\<close>

definition wf_flood :: "flood_st \<Rightarrow> bool" where
  "wf_flood s =
     (wf_map (fmap s) \<and> length (visited s) = nat (w (fmap s)) \<and>
      (\<forall>col \<in> set (visited s). length col = nat (h (fmap s))))"

definition unvisited :: "flood_st \<Rightarrow> (int \<times> int) set" where
  "unvisited s = {(x, y). inMap (fmap s) x y \<and> \<not> visited s ! nat x ! nat y}"

definition mark :: "flood_st \<Rightarrow> int \<Rightarrow> int \<Rightarrow> flood_st" where
  "mark s x y =
     s\<lparr>fmap := setCell (fmap s) x y 3 0,
       visited := (visited s)[nat x := (visited s ! nat x)[nat y := True]],
       calls := calls s @ [(x, y)]\<rparr>"

text \<open>
  What one run of \<open>_flood\<close> (or of its loop) does to the state: only covered marks
  change; the cells it was invoked on are appended to the log, each once, each
  unvisited before and visited and uncovered after.
\<close>

definition floodR :: "flood_st \<Rightarrow> flood_st \<Rightarrow> bool" where
  "floodR s s' =
     (wf_flood s' \<and> w (fmap s') = w (fmap s) \<and> h (fmap s') = h (fmap s) \<and>
      (\<forall>a b i. i \<noteq> 3 \<longrightarrow> getCell (fmap s') a b i = getCell (fmap s) a b i) \<and>
      (\<exists>new. calls s' = calls s @ new \<and> distinct new \<and> set new \<subseteq> unvisited s \<and>
         unvisited s' = unvisited s - set new \<and>
         (\<forall>a b. getCell (fmap s') a b 3 =
            (if (a, b) \<in> set new then Some 0 else getCell (fmap s) a b 3))))"

text \<open>
  The cells a run of \<open>_flood\<close> adds to the log, and the propagation it achieves:
  around every cell of number zero it was invoked on, each in-map neighbour is
  visited when it returns.
\<close>

definition newCalls :: "flood_st \<Rightarrow> flood_st \<Rightarrow> (int \<times> int) list" where
  "newCalls s s' = drop (length (calls s)) (calls s')"

definition closedNew :: "flood_st \<Rightarrow> flood_st \<Rightarrow> bool" where
  "closedNew s s' =
     (\<forall>(a, b) \<in> set (newCalls s s'). getCell (fmap s') a b 0 = Some 0 \<longrightarrow>
        (\<forall>(dx, dy) \<in> set offsets8. inMap (fmap s') (a + dx) (b + dy) \<longrightarrow>
           (a + dx, b + dy) \<notin> unvisited s'))"

text \<open>A cell with number zero has no bomb in its 3 by 3 block.\<close>

definition zero_safe :: "Map_obj \<Rightarrow> bool" where
  "zero_safe m =
     (\<forall>(x, y) \<in> set (cells_yx m). getCell m x y 0 = Some 0 \<longrightarrow>
        (\<forall>(dx, dy) \<in> set offsets9. getCell m (x + dx) (y + dy) 1 \<noteq> Some 1))"

text \<open>
  Reveal is one-way between two boards: what is uncovered stays uncovered. The
  operations of the engine, as steps between states of the match.
\<close>

definition covered_mono :: "Map_obj \<Rightarrow> Map_obj \<Rightarrow> bool" where
  "covered_mono m m' =
     (wf_map m' \<and> (\<forall>x y. getCell m x y 3 = Some 0 \<longrightarrow> getCell m' x y 3 = Some 0))"

inductive engine_step :: "Game \<Rightarrow> Game \<Rightarrow> bool" where
  step_cellClicked:
    "cellClicked e depth x y draws g = Some (r, g') \<Longrightarrow> engine_step g g'"
| step_cellRightClicked:
    "engine_step g (cellRightClicked x y g)"
| step_generateBombs:
    "generateBombs bombCount x y draws (gmap g) = Some m' \<Longrightarrow> engine_step g (g\<lparr>gmap := m'\<rparr>)"
| step_floodFill:
    "floodFill depth (gmap g) x y = Some m' \<Longrightarrow> engine_step g (g\<lparr>gmap := m'\<rparr>)"
| step_revealBombs:
    "engine_step g (g\<lparr>gmap := revealBombs (gmap g)\<rparr>)"
| step_start:
    "start x y draws g = Some g' \<Longrightarrow> engine_step g g'"
| step_finish:
    "engine_step g (finish result g)"

text \<open>
  The pair of values of \<open>Math.random()\<close> that makes the loop of \<open>generateBombs\<close>
  draw a given cell.
\<close>

definition drawFor :: "Map_obj \<Rightarrow> int \<times> int \<Rightarrow> rat \<times> rat" where
  "drawFor m c = (of_int (fst c) / of_int (w m), of_int (snd c) / of_int (h m))"

text \<open>
  Concrete states for the examples: the globals of ai.js as the script initialises
  them, and matches with one bomb on a board of five cells in one row.
\<close>

definition env0 :: ai_env where
  "env0 = \<lparr>currentTurn = Some ''player'', aiThinking = Some False\<rparr>"

definition board51 :: "cell list \<Rightarrow> Map_obj" where
  "board51 row = \<lparr>w = 5, h = 1, grid = [row]\<rparr>"

definition match51 :: "bool \<Rightarrow> cell list \<Rightarrow> int \<Rightarrow> string \<Rightarrow> Game" where
  "match51 st row fl stat =
     \<lparr>started = st, dead = False, gmap = board51 row, bombs = 1, flags = fl, status = stat\<rparr>"

section \<open>Basic facts\<close>

text \<open>Slot 1 stays the numeral it is in the source.\<close>

declare One_nat_def [simp del]

lemma wf_map_Map_new: "wf_map (Map_new a b)"
  by (simp add: wf_map_def Map_new_def)

lemma w_setCell [simp]: "w (setCell m x y i v) = w m"
  by (simp add: setCell_def)

lemma h_setCell [simp]: "h (setCell m x y i v) = h m"
  by (simp add: setCell_def)

lemma inMap_grid_update [simp]: "inMap (m\<lparr>grid := g\<rparr>) x y = inMap m x y"
  by (simp add: inMap_def)

lemma inMap_setCell [simp]: "inMap (setCell m x y i v) x' y' = inMap m x' y'"
  by (simp add: inMap_def setCell_def)

lemma wf_row:
  assumes "wf_map m" "inMap m x y"
  shows "nat y < length (grid m)" "length (grid m ! nat y) = nat (w m)"
    "nat x < length (grid m ! nat y)" "length (grid m ! nat y ! nat x) = 4"
proof -
  show 1: "nat y < length (grid m)" using assms by (auto simp: wf_map_def inMap_def)
  then have 2: "grid m ! nat y \<in> set (grid m)" by simp
  then show 3: "length (grid m ! nat y) = nat (w m)" using assms(1) by (simp add: wf_map_def)
  then show 4: "nat x < length (grid m ! nat y)" using assms(2) by (auto simp: inMap_def)
  then have "grid m ! nat y ! nat x \<in> set (grid m ! nat y)" by simp
  then show "length (grid m ! nat y ! nat x) = 4" using 2 assms(1) by (simp add: wf_map_def)
qed

lemma wf_setCell:
  assumes "wf_map m" shows "wf_map (setCell m x y i v)"
proof (cases "inMap m x y")
  case False
  then show ?thesis using assms by (simp add: setCell_def)
next
  case True
  note r = wf_row[OF assms True]
  let ?c = "(grid m ! nat y ! nat x)[i := v]"
  let ?r = "(grid m ! nat y)[nat x := ?c]"
  have c: "length ?c = 4" using r by simp
  have rr: "length ?r = nat (w m) \<and> (\<forall>c \<in> set ?r. length c = 4)"
  proof
    show "length ?r = nat (w m)" using r by simp
    show "\<forall>c \<in> set ?r. length c = 4"
    proof
      fix c assume "c \<in> set ?r"
      then have "c = ?c \<or> c \<in> set (grid m ! nat y)"
        using set_update_subset_insert[of "grid m ! nat y" "nat x" ?c] by auto
      then show "length c = 4" using c r(1) assms by (auto simp: wf_map_def)
    qed
  qed
  have "\<forall>row \<in> set ((grid m)[nat y := ?r]). length row = nat (w m) \<and> (\<forall>c \<in> set row. length c = 4)"
  proof
    fix row assume "row \<in> set ((grid m)[nat y := ?r])"
    then have "row = ?r \<or> row \<in> set (grid m)"
      using set_update_subset_insert[of "grid m" "nat y" ?r] by auto
    then show "length row = nat (w m) \<and> (\<forall>c \<in> set row. length c = 4)"
      using rr assms by (auto simp: wf_map_def)
  qed
  then show ?thesis using True assms by (simp add: wf_map_def setCell_def)
qed

text \<open>Reading a slot after a write: the one written slot changes, nothing else.\<close>

lemma getCell_setCell:
  assumes "wf_map m" "i < 4"
  shows "getCell (setCell m x y i v) x' y' i' =
         (if inMap m x y \<and> x' = x \<and> y' = y \<and> i' = i then Some v else getCell m x' y' i')"
proof (cases "inMap m x y")
  case False
  then show ?thesis by (simp add: setCell_def)
next
  case True
  note r = wf_row[OF assms(1) True]
  show ?thesis
  proof (cases "inMap m x' y'")
    case False
    then show ?thesis using True by (auto simp: getCell_def)
  next
    case T2: True
    have nx: "nat x' = nat x \<longleftrightarrow> x' = x" and ny: "nat y' = nat y \<longleftrightarrow> y' = y"
      using True T2 by (auto simp: inMap_def)
    show ?thesis
      using True T2 r assms(2) nx ny
      by (auto simp: getCell_def setCell_def nth_list_update)
  qed
qed

lemma getCell_None_iff: "getCell m x y i = None \<longleftrightarrow> \<not> inMap m x y"
  by (simp add: getCell_def)

lemma set_cells_yx: "set (cells_yx m) = {(x, y). inMap m x y}"
  by (auto simp: cells_yx_def inMap_def)

lemma distinct_pairs:
  "distinct xs \<Longrightarrow> distinct ys \<Longrightarrow> distinct [(x, y). y \<leftarrow> ys, x \<leftarrow> xs]"
  by (induction ys) (auto simp: distinct_map inj_on_def)

lemma distinct_cells_yx: "distinct (cells_yx m)"
  unfolding cells_yx_def by (rule distinct_pairs) simp_all

section \<open>Placing the bombs\<close>

lemma floor_draw:
  assumes "0 \<le> (u::rat)" "u < 1" "0 < n"
  shows "0 \<le> \<lfloor>u * of_int n\<rfloor> \<and> \<lfloor>u * of_int n\<rfloor> < n"
proof
  show "0 \<le> \<lfloor>u * of_int n\<rfloor>" using assms by simp
  have "u * of_int n < 1 * of_int n" using assms by (intro mult_strict_right_mono) auto
  then show "\<lfloor>u * of_int n\<rfloor> < n" by (simp add: floor_less_iff)
qed

lemma wf_bumpCell: "wf_map m \<Longrightarrow> wf_map (bumpCell m cx cy)"
  by (auto simp: bumpCell_def wf_setCell split: option.splits)

lemma w_bumpCell [simp]: "w (bumpCell m cx cy) = w m"
  by (auto simp: bumpCell_def split: option.splits)

lemma h_bumpCell [simp]: "h (bumpCell m cx cy) = h m"
  by (auto simp: bumpCell_def split: option.splits)

lemma inMap_bumpCell [simp]: "inMap (bumpCell m cx cy) x y = inMap m x y"
  by (simp add: inMap_def)

lemma getCell_bumpCell_other:
  "wf_map m \<Longrightarrow> i \<noteq> 0 \<Longrightarrow> getCell (bumpCell m cx cy) x y i = getCell m x y i"
  by (auto simp: bumpCell_def getCell_setCell split: option.splits)

lemma getCell_bumpCell_0:
  assumes "wf_map m"
  shows "getCell (bumpCell m cx cy) x y 0 =
     (if x = cx \<and> y = cy then map_option (\<lambda>n. n + 1) (getCell m x y 0) else getCell m x y 0)"
proof (cases "inMap m cx cy")
  case True
  then obtain n where n: "getCell m cx cy 0 = Some n" by (simp add: getCell_def)
  then have "bumpCell m cx cy = setCell m cx cy 0 (n + 1)" using True by (simp add: bumpCell_def)
  then show ?thesis using n assms True by (simp add: getCell_setCell)
next
  case False
  then have "bumpCell m cx cy = m" "getCell m cx cy 0 = None"
    by (simp_all add: bumpCell_def getCell_def)
  then show ?thesis by simp
qed

lemma getCell_Some_inMap: "getCell m x y i = Some v \<Longrightarrow> inMap m x y"
  by (simp add: getCell_def split: if_splits)

text \<open>The double loop around a placed bomb, for any list of offsets.\<close>

lemma bump_fold_frame:
  "wf_map m \<Longrightarrow>
   wf_map (foldl (\<lambda>m' (dx, dy). bumpCell m' (x + dx) (y + dy)) m offs) \<and>
   w (foldl (\<lambda>m' (dx, dy). bumpCell m' (x + dx) (y + dy)) m offs) = w m \<and>
   h (foldl (\<lambda>m' (dx, dy). bumpCell m' (x + dx) (y + dy)) m offs) = h m \<and>
   (\<forall>a b i. i \<noteq> 0 \<longrightarrow>
      getCell (foldl (\<lambda>m' (dx, dy). bumpCell m' (x + dx) (y + dy)) m offs) a b i = getCell m a b i)"
proof (induction offs arbitrary: m)
  case Nil
  then show ?case by simp
next
  case (Cons d offs)
  obtain dx dy where d: "d = (dx, dy)" by (cases d)
  have wf1: "wf_map (bumpCell m (x + dx) (y + dy))" using Cons.prems by (rule wf_bumpCell)
  show ?case using Cons.IH[OF wf1] Cons.prems
    by (simp add: d getCell_bumpCell_other)
qed

lemma bump_fold_count:
  "wf_map m \<Longrightarrow>
   getCell (foldl (\<lambda>m' (dx, dy). bumpCell m' (x + dx) (y + dy)) m offs) a b 0 =
     map_option (\<lambda>n. n + int (length (filter (\<lambda>d. d = (a - x, b - y)) offs))) (getCell m a b 0)"
proof (induction offs arbitrary: m)
  case Nil
  then show ?case by (simp add: option.map_ident)
next
  case (Cons d offs)
  obtain dx dy where d: "d = (dx, dy)" by (cases d)
  have wf1: "wf_map (bumpCell m (x + dx) (y + dy))" using Cons.prems by (rule wf_bumpCell)
  have eq: "(dx = a - x \<and> dy = b - y) \<longleftrightarrow> (a = x + dx \<and> b = y + dy)" by auto
  show ?case using Cons.IH[OF wf1] Cons.prems
    by (cases "getCell m a b 0") (auto simp: d getCell_bumpCell_0 eq)
qed

lemma count_eq_distinct:
  "distinct xs \<Longrightarrow> length (filter (\<lambda>d. d = a) xs) = (if a \<in> set xs then 1 else 0)"
  by (induction xs) auto

lemma distinct_offsets9: "distinct offsets9"
  by (simp add: offsets9_def)

lemma abs_le_1_iff: "\<bar>a::int\<bar> \<le> 1 \<longleftrightarrow> a = -1 \<or> a = 0 \<or> a = 1"
  by arith

lemma offsets9_set: "set offsets9 = {-1, 0, 1} \<times> {-1, 0, 1}"
  by (simp add: offsets9_def) blast

lemma in_offsets9: "(a, b) \<in> set offsets9 \<longleftrightarrow> \<bar>a\<bar> \<le> 1 \<and> \<bar>b\<bar> \<le> 1"
  by (simp add: offsets9_set abs_le_1_iff) blast

lemma bumpAround_offsets9:
  "bumpAround m x y = foldl (\<lambda>m' (dx, dy). bumpCell m' (x + dx) (y + dy)) m offsets9"
  by (simp add: bumpAround_def offsets9_def)

lemma filter_extra_length:
  "distinct xs \<Longrightarrow> \<not> P e \<Longrightarrow>
   length (filter (\<lambda>d. P d \<or> d = e) xs) = length (filter P xs) + (if e \<in> set xs then 1 else 0)"
  by (induction xs) auto

lemma cells_yx_setCell [simp]: "cells_yx (setCell m x y i v) = cells_yx m"
  by (simp add: cells_yx_def)

lemma cells_yx_cong: "w m' = w m \<Longrightarrow> h m' = h m \<Longrightarrow> cells_yx m' = cells_yx m"
  by (simp add: cells_yx_def)

text \<open>One accepted draw: the bomb mark of the drawn cell and the numbers around it.\<close>

lemma place_frame:
  fixes m :: Map_obj and x y :: int
  assumes "wf_map m"
  defines "m' \<equiv> bumpAround (setCell m x y 1 1) x y"
  shows "wf_map m'" "w m' = w m" "h m' = h m"
    "getCell m' a b 1 = (if inMap m x y \<and> a = x \<and> b = y then Some 1 else getCell m a b 1)"
    "getCell m' a b 2 = getCell m a b 2"
    "getCell m' a b 3 = getCell m a b 3"
    "getCell m' a b 0 =
       map_option (\<lambda>n. n + (if \<bar>a - x\<bar> \<le> 1 \<and> \<bar>b - y\<bar> \<le> 1 then 1 else 0)) (getCell m a b 0)"
proof -
  have wf1: "wf_map (setCell m x y 1 1)" using assms(1) by (rule wf_setCell)
  note fr = bump_fold_frame[OF wf1, of x y offsets9, folded bumpAround_offsets9, folded m'_def]
  show "wf_map m'" "w m' = w m" "h m' = h m" using fr by simp_all
  show "getCell m' a b 1 = (if inMap m x y \<and> a = x \<and> b = y then Some 1 else getCell m a b 1)"
    using fr assms(1) by (simp add: getCell_setCell)
  show "getCell m' a b 2 = getCell m a b 2" "getCell m' a b 3 = getCell m a b 3"
    using fr assms(1) by (simp_all add: getCell_setCell)
  have "getCell m' a b 0 =
     map_option (\<lambda>n. n + int (length (filter (\<lambda>d. d = (a - x, b - y)) offsets9)))
       (getCell (setCell m x y 1 1) a b 0)"
    unfolding m'_def bumpAround_offsets9 by (rule bump_fold_count[OF wf1])
  then show "getCell m' a b 0 =
       map_option (\<lambda>n. n + (if \<bar>a - x\<bar> \<le> 1 \<and> \<bar>b - y\<bar> \<le> 1 then 1 else 0)) (getCell m a b 0)"
    using assms(1)
    by (simp add: count_eq_distinct[OF distinct_offsets9] in_offsets9 getCell_setCell)
qed

lemma place_blockMines:
  assumes "wf_map m" "inMap m x y" "getCell m x y 1 \<noteq> Some 1"
  shows "blockMines (bumpAround (setCell m x y 1 1) x y) a b =
         blockMines m a b + (if \<bar>a - x\<bar> \<le> 1 \<and> \<bar>b - y\<bar> \<le> 1 then 1 else 0)"
proof -
  let ?P = "\<lambda>(dx, dy). getCell m (a + dx) (b + dy) 1 = Some 1"
  have np: "\<not> ?P (x - a, y - b)" using assms(3) by simp
  have eq: "(\<lambda>(dx, dy). getCell (bumpAround (setCell m x y 1 1) x y) (a + dx) (b + dy) 1 = Some 1)
        = (\<lambda>d. ?P d \<or> d = (x - a, y - b))"
    using assms(2) by (auto simp: place_frame(4)[OF assms(1)] fun_eq_iff)
  have mem: "(x - a, y - b) \<in> set offsets9 \<longleftrightarrow> \<bar>a - x\<bar> \<le> 1 \<and> \<bar>b - y\<bar> \<le> 1"
    by (simp add: in_offsets9 abs_minus_commute)
  show ?thesis
    unfolding blockMines_def eq
    using filter_extra_length[of offsets9 ?P "(x - a, y - b)", OF distinct_offsets9 np] mem by simp
qed

lemma place_counts_block:
  assumes "wf_map m" "inMap m x y" "getCell m x y 1 \<noteq> Some 1" "counts_block m"
  shows "counts_block (bumpAround (setCell m x y 1 1) x y)"
proof -
  let ?m' = "bumpAround (setCell m x y 1 1) x y"
  have c: "cells_yx ?m' = cells_yx m"
    by (rule cells_yx_cong) (simp_all add: place_frame[OF assms(1)])
  show ?thesis
    unfolding counts_block_def c
  proof (clarify)
    fix a b assume ab: "(a, b) \<in> set (cells_yx m)"
    then have "getCell m a b 0 = Some (int (blockMines m a b))"
      using assms(4) by (auto simp: counts_block_def)
    then show "getCell ?m' a b 0 = Some (int (blockMines ?m' a b))"
      by (simp add: place_frame(7)[OF assms(1)] place_blockMines[OF assms(1-3)])
  qed
qed

lemma place_bombCells:
  assumes "wf_map m" "inMap m x y" "getCell m x y 1 \<noteq> Some 1"
  shows "set (bombCells (bumpAround (setCell m x y 1 1) x y)) = insert (x, y) (set (bombCells m))"
    "length (bombCells (bumpAround (setCell m x y 1 1) x y)) = Suc (length (bombCells m))"
proof -
  let ?m' = "bumpAround (setCell m x y 1 1) x y"
  let ?P = "\<lambda>(a, b). getCell m a b 1 = Some 1"
  have c: "cells_yx ?m' = cells_yx m"
    by (rule cells_yx_cong) (simp_all add: place_frame[OF assms(1)])
  have eq: "(\<lambda>(a, b). getCell ?m' a b 1 = Some 1) = (\<lambda>d. ?P d \<or> d = (x, y))"
    using assms(2) by (auto simp: place_frame(4)[OF assms(1)] fun_eq_iff)
  have np: "\<not> ?P (x, y)" using assms(3) by simp
  have mem: "(x, y) \<in> set (cells_yx m)" using assms(2) by (simp add: set_cells_yx)
  show "set (bombCells ?m') = insert (x, y) (set (bombCells m))"
    unfolding bombCells_def c eq using mem by auto
  show "length (bombCells ?m') = Suc (length (bombCells m))"
    unfolding bombCells_def c eq
    using filter_extra_length[of "cells_yx m" ?P "(x, y)", OF distinct_cells_yx np] mem by simp
qed

lemma forbidden_zone_filter:
  "forbidden_zone m sx sy =
     filter (\<lambda>(a, b). inMap m a b) (map (\<lambda>(dx, dy). (sx + dx, sy + dy)) offsets9)"
  by (simp add: forbidden_zone_def offsets9_def)

lemma set_forbidden_zone:
  "(a, b) \<in> set (forbidden_zone m sx sy) \<longleftrightarrow>
     inMap m a b \<and> \<bar>a - sx\<bar> \<le> 1 \<and> \<bar>b - sy\<bar> \<le> 1"
proof -
  have "(a, b) \<in> (\<lambda>(dx, dy). (sx + dx, sy + dy)) ` set offsets9 \<longleftrightarrow> (a - sx, b - sy) \<in> set offsets9"
  proof
    assume "(a, b) \<in> (\<lambda>(dx, dy). (sx + dx, sy + dy)) ` set offsets9"
    then obtain dx dy where "(dx, dy) \<in> set offsets9" "a = sx + dx" "b = sy + dy" by auto
    then show "(a - sx, b - sy) \<in> set offsets9" by simp
  next
    assume "(a - sx, b - sy) \<in> set offsets9"
    then have "(\<lambda>(dx, dy). (sx + dx, sy + dy)) (a - sx, b - sy) \<in> (\<lambda>(dx, dy). (sx + dx, sy + dy)) ` set offsets9"
      by (rule imageI)
    then show "(a, b) \<in> (\<lambda>(dx, dy). (sx + dx, sy + dy)) ` set offsets9" by simp
  qed
  then show ?thesis
    unfolding forbidden_zone_filter by (auto simp add: in_offsets9 simp del: image_eqI)
qed

text \<open>What the loop keeps whatever the draws are.\<close>

lemma placeLoop_frame:
  "wf_map m \<Longrightarrow> placeLoop count bc forb ds m = Some m' \<Longrightarrow>
   wf_map m' \<and> w m' = w m \<and> h m' = h m \<and>
   (\<forall>a b. getCell m' a b 2 = getCell m a b 2 \<and> getCell m' a b 3 = getCell m a b 3)"
proof (induction ds arbitrary: m count)
  case Nil
  then show ?case by (simp split: if_splits)
next
  case (Cons d ds)
  obtain u v where d: "d = (u, v)" by (cases d)
  define x where "x = \<lfloor>u * of_int (w m)\<rfloor>"
  define y where "y = \<lfloor>v * of_int (h m)\<rfloor>"
  let ?m1 = "bumpAround (setCell m x y 1 1) x y"
  note pf = place_frame[OF Cons.prems(1), of x y]
  from Cons.prems(2) consider
      (stop) "\<not> count < bc" "m' = m"
    | (skip) "count < bc" "placeLoop count bc forb ds m = Some m'"
    | (place) "count < bc" "placeLoop (count + 1) bc forb ds ?m1 = Some m'"
    by (auto simp: d Let_def x_def y_def split: if_splits)
  then show ?case
  proof cases
    case stop
    then show ?thesis using Cons.prems(1) by simp
  next
    case skip
    then show ?thesis using Cons.IH[OF Cons.prems(1)] by blast
  next
    case place
    from Cons.IH[OF pf(1) place(2)] show ?thesis by (simp add: pf)
  qed
qed

text \<open>With draws in range on a non-empty board, every accepted draw places one bomb.\<close>

lemma placeLoop_inv:
  assumes "wf_map m" "draws_ok ds" "0 < w m" "0 < h m" "count \<le> bc"
    and "placeLoop count bc forb ds m = Some m'"
  shows "(counts_block m \<longrightarrow> counts_block m') \<and>
         int (length (bombCells m')) = int (length (bombCells m)) + (bc - count) \<and>
         set (bombCells m) \<subseteq> set (bombCells m') \<and>
         (set (bombCells m') - set (bombCells m)) \<inter> set forb = {}"
  using assms
proof (induction ds arbitrary: m count)
  case Nil
  then show ?case by (simp split: if_splits)
next
  case (Cons d ds)
  obtain u v where d: "d = (u, v)" by (cases d)
  define x where "x = \<lfloor>u * of_int (w m)\<rfloor>"
  define y where "y = \<lfloor>v * of_int (h m)\<rfloor>"
  let ?m1 = "bumpAround (setCell m x y 1 1) x y"
  have uv: "0 \<le> u" "u < 1" "0 \<le> v" "v < 1" and ds: "draws_ok ds"
    using Cons.prems(2) by (auto simp: draws_ok_def d)
  have xy: "inMap m x y"
    using floor_draw[OF uv(1,2) Cons.prems(3)] floor_draw[OF uv(3,4) Cons.prems(4)]
    by (simp add: inMap_def x_def y_def)
  note pf = place_frame[OF Cons.prems(1), of x y]
  from Cons.prems(6) consider
      (stop) "\<not> count < bc" "m' = m"
    | (skip) "count < bc" "placeLoop count bc forb ds m = Some m'"
    | (place) "count < bc" "(x, y) \<notin> set forb" "getCell m x y 1 \<noteq> Some 1"
        "placeLoop (count + 1) bc forb ds ?m1 = Some m'"
    by (auto simp: d Let_def x_def y_def split: if_splits)
  then show ?case
  proof cases
    case stop
    then show ?thesis using Cons.prems(5) by simp
  next
    case skip
    then show ?thesis
      using Cons.IH[OF Cons.prems(1) ds Cons.prems(3,4,5)] by blast
  next
    case place
    have c1: "count + 1 \<le> bc" using place(1) by simp
    have w1: "0 < w ?m1" "0 < h ?m1" using Cons.prems(3,4) by (simp_all add: pf)
    note ih = Cons.IH[OF pf(1) ds w1 c1 place(4)]
    note pb = place_bombCells[OF Cons.prems(1) xy place(3)]
    have "counts_block m \<longrightarrow> counts_block m'"
      using ih place_counts_block[OF Cons.prems(1) xy place(3)] by blast
    moreover have "int (length (bombCells m')) = int (length (bombCells m)) + (bc - count)"
      using ih pb(2) by simp
    moreover have "set (bombCells m) \<subseteq> set (bombCells m')"
      using ih pb(1) by auto
    moreover have "(set (bombCells m') - set (bombCells m)) \<inter> set forb = {}"
      using ih pb(1) place(2) by auto
    ultimately show ?thesis by blast
  qed
qed

lemma placeLoop_done: "\<not> count < bc \<Longrightarrow> placeLoop count bc forb ds m = Some m"
  by (cases ds) auto

lemma getCell_Map_new:
  "getCell (Map_new a b) x y i = (if inMap (Map_new a b) x y then Some ([0, 0, 0, 1] ! i) else None)"
  by (auto simp: getCell_def Map_new_def inMap_def)

lemma no_bomb_Map_new: "getCell (Map_new a b) x y 1 \<noteq> Some 1"
  by (simp add: getCell_Map_new One_nat_def)

lemma bombCells_Map_new: "bombCells (Map_new a b) = []"
  by (simp add: bombCells_def no_bomb_Map_new)

lemma blockMines_Map_new: "blockMines (Map_new a b) x y = 0"
  by (simp add: blockMines_def no_bomb_Map_new)

lemma counts_block_Map_new: "counts_block (Map_new a b)"
  by (auto simp: counts_block_def blockMines_Map_new getCell_Map_new set_cells_yx)

lemma blockMines_adjacent:
  "blockMines m x y = adjacentMines m x y + (if getCell m x y 1 = Some 1 then 1 else 0)"
  by (simp add: blockMines_def adjacentMines_def offsets8_def offsets9_def)

text \<open>With enough free cells, some values of the random source let the loop finish.\<close>

lemma drawFor_hits:
  assumes "inMap m x y"
  shows "\<lfloor>fst (drawFor m (x, y)) * of_int (w m)\<rfloor> = x"
    "\<lfloor>snd (drawFor m (x, y)) * of_int (h m)\<rfloor> = y"
    "draws_ok [drawFor m (x, y)]"
proof -
  have pos: "0 < w m" "0 < h m" "0 \<le> x" "x < w m" "0 \<le> y" "y < h m"
    using assms by (auto simp: inMap_def)
  show "\<lfloor>fst (drawFor m (x, y)) * of_int (w m)\<rfloor> = x"
    "\<lfloor>snd (drawFor m (x, y)) * of_int (h m)\<rfloor> = y"
    using pos by (simp_all add: drawFor_def)
  show "draws_ok [drawFor m (x, y)]"
    using pos by (simp add: draws_ok_def drawFor_def)
qed

lemma draws_ok_append: "draws_ok (xs @ ys) \<longleftrightarrow> draws_ok xs \<and> draws_ok ys"
  by (auto simp: draws_ok_def)

lemma draws_ok_drawFor:
  "set cs \<subseteq> set (cells_yx m) \<Longrightarrow> draws_ok (map (drawFor m) cs)"
proof (induction cs)
  case Nil
  then show ?case by (simp add: draws_ok_def)
next
  case (Cons c cs)
  obtain x y where c: "c = (x, y)" by (cases c)
  have "inMap m x y" using Cons.prems by (simp add: c set_cells_yx)
  then have "draws_ok [drawFor m (x, y)]" by (rule drawFor_hits(3))
  moreover have "draws_ok (map (drawFor m) cs)" using Cons by simp
  ultimately show ?case using draws_ok_append[of "[drawFor m c]" "map (drawFor m) cs"]
    by (simp add: c)
qed

lemma placeLoop_completes:
  assumes "wf_map m" "distinct cs" "set cs \<subseteq> set (cells_yx m)" "set cs \<inter> set forb = {}"
    and "set cs \<inter> set (bombCells m) = {}" "count + int (length cs) = bc"
  shows "placeLoop count bc forb (map (drawFor m) cs) m \<noteq> None"
  using assms
proof (induction cs arbitrary: m count)
  case Nil
  then show ?case by simp
next
  case (Cons c cs)
  obtain x y where c: "c = (x, y)" by (cases c)
  obtain u v where uv: "drawFor m (x, y) = (u, v)" by (cases "drawFor m (x, y)")
  let ?m1 = "bumpAround (setCell m x y 1 1) x y"
  have xy: "inMap m x y" using Cons.prems(3) by (simp add: c set_cells_yx)
  have hit: "\<lfloor>u * of_int (w m)\<rfloor> = x" "\<lfloor>v * of_int (h m)\<rfloor> = y"
    using drawFor_hits(1,2)[OF xy] by (simp_all add: uv)
  have lt: "count < bc" using Cons.prems(6) by simp
  have nf: "(x, y) \<notin> set forb" using Cons.prems(4) by (auto simp: c)
  have nb: "getCell m x y 1 \<noteq> Some 1"
    using Cons.prems(3,5) by (auto simp: c bombCells_def)
  note pf = place_frame[OF Cons.prems(1), of x y]
  note pb = place_bombCells[OF Cons.prems(1) xy nb]
  have same: "map (drawFor ?m1) cs = map (drawFor m) cs"
    by (simp add: drawFor_def pf(2,3))
  have cells: "cells_yx ?m1 = cells_yx m" by (rule cells_yx_cong) (simp_all add: pf(2,3))
  have ih: "placeLoop (count + 1) bc forb (map (drawFor ?m1) cs) ?m1 \<noteq> None"
  proof (rule Cons.IH)
    show "wf_map ?m1" by (rule pf(1))
    show "distinct cs" using Cons.prems(2) by simp
    show "set cs \<subseteq> set (cells_yx ?m1)" using Cons.prems(3) by (simp add: cells)
    show "set cs \<inter> set forb = {}" using Cons.prems(4) by auto
    show "set cs \<inter> set (bombCells ?m1) = {}"
      using Cons.prems(2,5) by (auto simp: pb(1) c)
    show "count + 1 + int (length cs) = bc" using Cons.prems(6) by simp
  qed
  show ?case using lt nf nb ih by (simp add: c uv hit same)
qed

lemma generateBombs_can_complete:
  assumes "wf_map m" and "bombCells m = []"
    and "0 \<le> bombCount" and "bombCount \<le> int (length (freeCells m startX startY))"
  shows "\<exists>draws. draws_ok draws \<and> generateBombs bombCount startX startY draws m \<noteq> None"
proof -
  let ?cs = "take (nat bombCount) (freeCells m startX startY)"
  have sub: "set ?cs \<subseteq> set (freeCells m startX startY)" by (rule set_take_subset)
  have d: "distinct ?cs" by (simp add: freeCells_def distinct_cells_yx)
  have c: "set ?cs \<subseteq> set (cells_yx m)" using sub by (auto simp: freeCells_def)
  have f: "set ?cs \<inter> set (forbidden_zone m startX startY) = {}"
    using sub by (auto simp: freeCells_def)
  have len: "0 + int (length ?cs) = bombCount" using assms(3,4) by simp
  have "placeLoop 0 bombCount (forbidden_zone m startX startY) (map (drawFor m) ?cs) m \<noteq> None"
    using placeLoop_completes[OF assms(1) d c f _ len] assms(2) by simp
  then show ?thesis
    using draws_ok_drawFor[OF c] unfolding generateBombs_def by blast
qed

text \<open>
  Claim C1. On a board with no bomb yet, for a bomb count between zero and the number
  of in-map cells outside the forbidden zone, a run of \<open>generateBombs\<close> that
  completes leaves exactly \<open>bombCount\<close> cells with the bomb mark set, and none of
  them within one step (diagonals included) of \<open>(startX, startY)\<close>.
\<close>

theorem generateBombs_exact:
  assumes "wf_map m" and "bombCells m = []" and "draws_ok draws"
    and "0 \<le> bombCount" and "bombCount \<le> int (length (freeCells m startX startY))"
    and "generateBombs bombCount startX startY draws m = Some m'"
  shows "int (length (bombCells m')) = bombCount \<and>
         (\<forall>(x, y) \<in> set (bombCells m'). \<not> (\<bar>x - startX\<bar> \<le> 1 \<and> \<bar>y - startY\<bar> \<le> 1))"
proof (cases "bombCount = 0")
  case True
  then have "m' = m" using assms(6) by (simp add: generateBombs_def placeLoop_done)
  then show ?thesis using assms(2) True by simp
next
  case False
  then have pos: "0 < bombCount" using assms(4) by simp
  then have "freeCells m startX startY \<noteq> []" using assms(5) by auto
  then obtain c where "c \<in> set (cells_yx m)" by (auto simp: freeCells_def filter_empty_conv)
  then have wh: "0 < w m" "0 < h m" by (auto simp: set_cells_yx inMap_def)
  let ?forb = "forbidden_zone m startX startY"
  have pl: "placeLoop 0 bombCount ?forb draws m = Some m'"
    using assms(6) by (simp add: generateBombs_def)
  note fr = placeLoop_frame[OF assms(1) pl]
  note inv = placeLoop_inv[OF assms(1) assms(3) wh assms(4) pl]
  have len: "int (length (bombCells m')) = bombCount" using inv assms(2) by simp
  have "\<not> (\<bar>x - startX\<bar> \<le> 1 \<and> \<bar>y - startY\<bar> \<le> 1)" if xy: "(x, y) \<in> set (bombCells m')" for x y
  proof -
    have "(x, y) \<notin> set ?forb" using inv assms(2) xy by auto
    moreover have "inMap m x y"
      using xy fr by (auto simp: bombCells_def set_cells_yx inMap_def)
    ultimately show ?thesis by (simp add: set_forbidden_zone)
  qed
  then show ?thesis using len by auto
qed

theorem generateBombs_exact_witness:
  "wf_map (Map_new 5 1) \<and> bombCells (Map_new 5 1) = [] \<and>
   draws_ok [(0, 0), (3/5, 0), (3/5, 0), (4/5, 0)] \<and>
   (2::int) \<le> int (length (freeCells (Map_new 5 1) 0 0)) \<and>
   generateBombs 2 0 0 [(0, 0), (3/5, 0), (3/5, 0), (4/5, 0)] (Map_new 5 1) =
     Some \<lparr>w = 5, h = 1,
           grid = [[[0, 0, 0, 1], [0, 0, 0, 1], [1, 0, 0, 1], [2, 1, 0, 1], [2, 1, 0, 1]]]\<rparr> \<and>
   int (length (bombCells \<lparr>w = 5, h = 1,
           grid = [[[0, 0, 0, 1], [0, 0, 0, 1], [1, 0, 0, 1], [2, 1, 0, 1], [2, 1, 0, 1]]]\<rparr>)) = 2"
proof -
  have h1: "wf_map (Map_new 5 1)" by (rule wf_map_Map_new)
  have h2: "bombCells (Map_new 5 1) = []" by (rule bombCells_Map_new)
  have h3: "draws_ok [(0, 0), (3/5, 0), (3/5, 0), (4/5, 0)]" by (simp add: draws_ok_def)
  have h4: "(0::int) \<le> 2" by simp
  have h5: "(2::int) \<le> int (length (freeCells (Map_new 5 1) 0 0))" by code_simp
  have h6: "generateBombs 2 0 0 [(0, 0), (3/5, 0), (3/5, 0), (4/5, 0)] (Map_new 5 1) =
     Some \<lparr>w = 5, h = 1,
           grid = [[[0, 0, 0, 1], [0, 0, 0, 1], [1, 0, 0, 1], [2, 1, 0, 1], [2, 1, 0, 1]]]\<rparr>"
    by code_simp
  from generateBombs_exact[OF h1 h2 h3 h4 h5 h6]
  have c: "int (length (bombCells \<lparr>w = 5, h = 1,
           grid = [[[0, 0, 0, 1], [0, 0, 0, 1], [1, 0, 0, 1], [2, 1, 0, 1], [2, 1, 0, 1]]]\<rparr>)) = 2"
    by (rule conjunct1)
  from h1 h2 h3 h5 h6 c show ?thesis by blast
qed

text \<open>
  Claim C2, as stated, fails: the inner loops of \<open>generateBombs\<close> run over all nine
  offsets, \<open>dx = dy = 0\<close> included, so a mined cell counts itself. One bomb on
  a 4 by 1 board: the mined cell \<open>(3, 0)\<close> has number 1 and no mined neighbour.
\<close>

theorem generateBombs_counts_adjacent_counterexample:
  "generateBombs 1 0 0 [(3/4, 0)] (Map_new 4 1) =
     Some \<lparr>w = 4, h = 1, grid = [[[0, 0, 0, 1], [0, 0, 0, 1], [1, 0, 0, 1], [1, 1, 0, 1]]]\<rparr> \<and>
   getCell \<lparr>w = 4, h = 1, grid = [[[0, 0, 0, 1], [0, 0, 0, 1], [1, 0, 0, 1], [1, 1, 0, 1]]]\<rparr> 3 0 0 = Some 1 \<and>
   adjacentMines \<lparr>w = 4, h = 1, grid = [[[0, 0, 0, 1], [0, 0, 0, 1], [1, 0, 0, 1], [1, 1, 0, 1]]]\<rparr> 3 0 = 0 \<and>
   \<not> counts_adjacent \<lparr>w = 4, h = 1, grid = [[[0, 0, 0, 1], [0, 0, 0, 1], [1, 0, 0, 1], [1, 1, 0, 1]]]\<rparr>"
  by code_simp

text \<open>
  Claim C2, amended. After placement every cell's number is the number of mined cells
  in the 3 by 3 block centred on it, the cell itself included and the block clipped to
  the map: the number of mined cells among its eight neighbours, plus one when the cell
  itself is mined. The constructor's board satisfies the precondition.
\<close>

theorem generateBombs_counts_block:
  assumes "wf_map m" and "counts_block m" and "draws_ok draws"
    and "generateBombs bombCount startX startY draws m = Some m'"
  shows "counts_block (Map_new width height) \<and> counts_block m' \<and>
         (\<forall>(x, y) \<in> set (cells_yx m').
            getCell m' x y 0 =
              Some (int (adjacentMines m' x y) + (if getCell m' x y 1 = Some 1 then 1 else 0)))"
proof -
  let ?forb = "forbidden_zone m startX startY"
  have pl: "placeLoop 0 bombCount ?forb draws m = Some m'"
    using assms(4) by (simp add: generateBombs_def)
  note fr = placeLoop_frame[OF assms(1) pl]
  have cb: "counts_block m'"
  proof (cases "0 < w m \<and> 0 < h m")
    case True
    show ?thesis
    proof (cases "0 \<le> bombCount")
      case True
      with \<open>0 < w m \<and> 0 < h m\<close> placeLoop_inv[OF assms(1) assms(3) _ _ True pl] assms(2)
      show ?thesis by blast
    next
      case False
      then have "m' = m" using pl by (simp add: placeLoop_done)
      then show ?thesis using assms(2) by simp
    qed
  next
    case False
    then have "cells_yx m' = []" using fr by (auto simp: cells_yx_def)
    then show ?thesis by (simp add: counts_block_def)
  qed
  then have "\<forall>(x, y) \<in> set (cells_yx m').
            getCell m' x y 0 =
              Some (int (adjacentMines m' x y) + (if getCell m' x y 1 = Some 1 then 1 else 0))"
    by (auto simp: counts_block_def blockMines_adjacent)
  with cb show ?thesis by (simp add: counts_block_Map_new)
qed

theorem generateBombs_counts_block_witness:
  "wf_map (Map_new 4 1) \<and> counts_block (Map_new 4 1) \<and> draws_ok [(3/4, 0)] \<and>
   generateBombs 1 0 0 [(3/4, 0)] (Map_new 4 1) =
     Some \<lparr>w = 4, h = 1, grid = [[[0, 0, 0, 1], [0, 0, 0, 1], [1, 0, 0, 1], [1, 1, 0, 1]]]\<rparr> \<and>
   counts_block \<lparr>w = 4, h = 1, grid = [[[0, 0, 0, 1], [0, 0, 0, 1], [1, 0, 0, 1], [1, 1, 0, 1]]]\<rparr>"
proof -
  have h1: "wf_map (Map_new 4 1)" by (rule wf_map_Map_new)
  have h2: "counts_block (Map_new 4 1)" by (rule counts_block_Map_new)
  have h3: "draws_ok [(3/4, 0)]" by (simp add: draws_ok_def)
  have h4: "generateBombs 1 0 0 [(3/4, 0)] (Map_new 4 1) =
     Some \<lparr>w = 4, h = 1, grid = [[[0, 0, 0, 1], [0, 0, 0, 1], [1, 0, 0, 1], [1, 1, 0, 1]]]\<rparr>"
    by code_simp
  from generateBombs_counts_block[OF h1 h2 h3 h4]
  have c: "counts_block \<lparr>w = 4, h = 1, grid = [[[0, 0, 0, 1], [0, 0, 0, 1], [1, 0, 0, 1], [1, 1, 0, 1]]]\<rparr>"
    by blast
  from h1 h2 h3 h4 c show ?thesis by blast
qed

section \<open>The flood fill\<close>

lemma flood_Suc:
  "flood (Suc n) x y s =
     (if getCell (fmap (mark s x y)) x y 0 \<noteq> Some 0 then Some (mark s x y)
      else flood_nbrs n x y [(dx, dy). dx \<leftarrow> [-1, 0, 1], dy \<leftarrow> [-1, 0, 1]] (mark s x y))"
  by (simp add: mark_def Let_def)

lemma visited_update:
  assumes "length vs = nat W" "\<forall>col \<in> set vs. length col = nat H"
    and "0 \<le> x" "x < W" "0 \<le> y" "y < H" "0 \<le> a" "a < W" "0 \<le> b" "b < H"
  shows "(vs[nat x := (vs ! nat x)[nat y := True]]) ! nat a ! nat b =
         (if a = x \<and> b = y then True else vs ! nat a ! nat b)"
proof -
  have "vs ! nat x \<in> set vs" using assms by simp
  then have "length (vs ! nat x) = nat H" using assms(2) by blast
  moreover have "nat a = nat x \<longleftrightarrow> a = x" "nat b = nat y \<longleftrightarrow> b = y" using assms by auto
  ultimately show ?thesis using assms by (auto simp: nth_list_update)
qed

lemma finite_unvisited: "finite (unvisited s)"
proof (rule finite_subset)
  show "unvisited s \<subseteq> set (cells_yx (fmap s))" by (auto simp: unvisited_def set_cells_yx)
qed simp

lemma wf_flood_mark:
  assumes "wf_flood s"
  shows "wf_flood (mark s x y)"
proof -
  let ?col = "(visited s ! nat x)[nat y := True]"
  have "\<forall>col \<in> set ((visited s)[nat x := ?col]). length col = nat (h (fmap s))"
  proof
    fix col assume "col \<in> set ((visited s)[nat x := ?col])"
    then have c: "col = ?col \<or> col \<in> set (visited s)"
      using set_update_subset_insert[of "visited s" "nat x" ?col] by auto
    show "length col = nat (h (fmap s))"
    proof (cases "nat x < length (visited s)")
      case True
      then have "visited s ! nat x \<in> set (visited s)" by simp
      then show ?thesis using c assms by (auto simp: wf_flood_def)
    next
      case False
      then have "(visited s)[nat x := ?col] = visited s" by (simp add: list_update_beyond)
      then show ?thesis using \<open>col \<in> set ((visited s)[nat x := ?col])\<close> assms
        by (auto simp: wf_flood_def)
    qed
  qed
  then show ?thesis using assms by (simp add: wf_flood_def mark_def wf_setCell)
qed

lemma mark_frame:
  assumes "wf_flood s"
  shows "w (fmap (mark s x y)) = w (fmap s)" "h (fmap (mark s x y)) = h (fmap s)"
    "i \<noteq> 3 \<Longrightarrow> getCell (fmap (mark s x y)) a b i = getCell (fmap s) a b i"
    "getCell (fmap (mark s x y)) a b 3 =
       (if inMap (fmap s) x y \<and> a = x \<and> b = y then Some 0 else getCell (fmap s) a b 3)"
    "calls (mark s x y) = calls s @ [(x, y)]"
  using assms by (simp_all add: mark_def wf_flood_def getCell_setCell)

lemma unvisited_mark:
  assumes "wf_flood s" "inMap (fmap s) x y"
  shows "unvisited (mark s x y) = unvisited s - {(x, y)}"
proof -
  have "visited (mark s x y) ! nat a ! nat b =
        (if a = x \<and> b = y then True else visited s ! nat a ! nat b)"
    if "inMap (fmap s) a b" for a b
    using assms that visited_update[of "visited s" "w (fmap s)" "h (fmap s)" x y a b]
    by (simp add: mark_def wf_flood_def inMap_def)
  then show ?thesis by (auto simp: unvisited_def mark_def split: if_splits)
qed

lemma floodR_refl: "wf_flood s \<Longrightarrow> floodR s s"
  by (simp add: floodR_def)

lemma floodR_trans:
  assumes "floodR s s1" "floodR s1 s2"
  shows "floodR s s2"
proof -
  from assms(1) obtain new1 where n1: "calls s1 = calls s @ new1" "distinct new1"
      "set new1 \<subseteq> unvisited s" "unvisited s1 = unvisited s - set new1"
      "\<And>a b. getCell (fmap s1) a b 3 = (if (a, b) \<in> set new1 then Some 0 else getCell (fmap s) a b 3)"
    unfolding floodR_def by blast
  from assms(2) obtain new2 where n2: "calls s2 = calls s1 @ new2" "distinct new2"
      "set new2 \<subseteq> unvisited s1" "unvisited s2 = unvisited s1 - set new2"
      "\<And>a b. getCell (fmap s2) a b 3 = (if (a, b) \<in> set new2 then Some 0 else getCell (fmap s1) a b 3)"
    unfolding floodR_def by blast
  have a: "calls s2 = calls s @ (new1 @ new2)" using n1(1) n2(1) by simp
  have b: "distinct (new1 @ new2)" using n1(2,4) n2(2,3) by auto
  have c: "set (new1 @ new2) \<subseteq> unvisited s" using n1(3,4) n2(3) by auto
  have d: "unvisited s2 = unvisited s - set (new1 @ new2)" using n1(4) n2(4) by auto
  have e: "\<forall>a b. getCell (fmap s2) a b 3 =
      (if (a, b) \<in> set (new1 @ new2) then Some 0 else getCell (fmap s) a b 3)"
    using n1(5) n2(5) by auto
  have f: "wf_flood s2 \<and> w (fmap s2) = w (fmap s) \<and> h (fmap s2) = h (fmap s) \<and>
      (\<forall>a b i. i \<noteq> 3 \<longrightarrow> getCell (fmap s2) a b i = getCell (fmap s) a b i)"
    using assms unfolding floodR_def by simp
  show ?thesis unfolding floodR_def using f a b c d e by blast
qed

lemma floodR_mark:
  assumes "wf_flood s" "(x, y) \<in> unvisited s"
  shows "floodR s (mark s x y)"
proof -
  have xy: "inMap (fmap s) x y" using assms(2) by (simp add: unvisited_def)
  have "calls (mark s x y) = calls s @ [(x, y)] \<and> distinct [(x, y)] \<and> set [(x, y)] \<subseteq> unvisited s \<and>
     unvisited (mark s x y) = unvisited s - set [(x, y)] \<and>
     (\<forall>a b. getCell (fmap (mark s x y)) a b 3 =
        (if (a, b) \<in> set [(x, y)] then Some 0 else getCell (fmap s) a b 3))"
    using assms xy by (simp add: mark_frame unvisited_mark)
  then show ?thesis
    unfolding floodR_def using wf_flood_mark[OF assms(1)] mark_frame(1,2,3)[OF assms(1)]
    by blast
qed

lemma flood_nbrs_Cons:
  "flood_nbrs n x y ((dx, dy) # ds) s =
     (if (dx = 0 \<and> dy = 0) \<or> (x + dx, y + dy) \<notin> unvisited s then flood_nbrs n x y ds s
      else (case flood n (x + dx) (y + dy) s of
              None \<Rightarrow> None
            | Some s' \<Rightarrow> flood_nbrs n x y ds s'))"
  by (auto simp: unvisited_def)

declare flood.simps(2) [simp del] flood_nbrs.simps(2) [simp del]

lemma floodR_mono:
  assumes "floodR s s'"
  shows "unvisited s' \<subseteq> unvisited s" "inMap (fmap s') a b = inMap (fmap s) a b" "wf_flood s'"
  using assms by (auto simp: floodR_def inMap_def)

text \<open>The loop, given the behaviour of the calls it makes.\<close>

lemma flood_nbrs_rel:
  assumes P: "\<And>x y s s'. flood n x y s = Some s' \<Longrightarrow> wf_flood s \<Longrightarrow> (x, y) \<in> unvisited s \<Longrightarrow>
                floodR s s' \<and> (x, y) \<notin> unvisited s'"
  shows "flood_nbrs n x y ds s = Some s' \<Longrightarrow> wf_flood s \<Longrightarrow>
         floodR s s' \<and>
         (\<forall>(dx, dy) \<in> set ds. \<not> (dx = 0 \<and> dy = 0) \<longrightarrow> (x + dx, y + dy) \<notin> unvisited s')"
proof (induction ds arbitrary: s)
  case Nil
  then show ?case by (simp add: floodR_refl)
next
  case (Cons d ds)
  obtain dx dy where d: "d = (dx, dy)" by (cases d)
  show ?case
  proof (cases "(dx = 0 \<and> dy = 0) \<or> (x + dx, y + dy) \<notin> unvisited s")
    case True
    then have run: "flood_nbrs n x y ds s = Some s'"
      using Cons.prems(1) by (simp add: d flood_nbrs_Cons)
    note ih = Cons.IH[OF run Cons.prems(2)]
    have "(x + dx, y + dy) \<notin> unvisited s'" if "\<not> (dx = 0 \<and> dy = 0)"
      using True that floodR_mono(1)[of s s'] ih by auto
    then show ?thesis using ih by (simp add: d)
  next
    case False
    then obtain s1 where s1: "flood n (x + dx) (y + dy) s = Some s1"
      and run: "flood_nbrs n x y ds s1 = Some s'"
      using Cons.prems(1) by (auto simp: d flood_nbrs_Cons split: option.splits)
    from False have unv: "(x + dx, y + dy) \<in> unvisited s" by simp
    note p = P[OF s1 Cons.prems(2) unv]
    note ih = Cons.IH[OF run floodR_mono(3)[of s s1]]
    have r: "floodR s s'" using p ih floodR_trans by blast
    have "(x + dx, y + dy) \<notin> unvisited s'"
      using p ih floodR_mono(1)[of s1 s'] by auto
    then show ?thesis using r p ih by (simp add: d)
  qed
qed

lemma flood_rel:
  "flood n x y s = Some s' \<Longrightarrow> wf_flood s \<Longrightarrow> (x, y) \<in> unvisited s \<Longrightarrow>
   floodR s s' \<and> (x, y) \<notin> unvisited s'"
proof (induction n arbitrary: x y s s')
  case 0
  then show ?case by simp
next
  case (Suc n)
  let ?s1 = "mark s x y"
  have xy: "inMap (fmap s) x y" using Suc.prems(3) by (simp add: unvisited_def)
  have r1: "floodR s ?s1" using Suc.prems(2,3) by (rule floodR_mark)
  have u1: "(x, y) \<notin> unvisited ?s1" using Suc.prems(2) xy by (simp add: unvisited_mark)
  show ?case
  proof (cases "getCell (fmap ?s1) x y 0 \<noteq> Some 0")
    case True
    then have "s' = ?s1" using Suc.prems(1) by (simp add: flood_Suc)
    then show ?thesis using r1 u1 by simp
  next
    case False
    then have run: "flood_nbrs n x y [(dx, dy). dx \<leftarrow> [-1, 0, 1], dy \<leftarrow> [-1, 0, 1]] ?s1 = Some s'"
      using Suc.prems(1) by (simp add: flood_Suc)
    have "floodR ?s1 s'"
      using flood_nbrs_rel[OF Suc.IH run floodR_mono(3)[OF r1]] by blast
    then show ?thesis using r1 u1 floodR_trans floodR_mono(1)[of ?s1 s'] by blast
  qed
qed

text \<open>Termination: a depth of the number of unvisited cells is enough.\<close>

lemma flood_nbrs_terminates:
  assumes P: "\<And>x y s. wf_flood s \<Longrightarrow> (x, y) \<in> unvisited s \<Longrightarrow> card (unvisited s) \<le> n \<Longrightarrow>
                flood n x y s \<noteq> None"
  shows "wf_flood s \<Longrightarrow> card (unvisited s) \<le> n \<Longrightarrow> flood_nbrs n x y ds s \<noteq> None"
proof (induction ds arbitrary: s)
  case Nil
  then show ?case by simp
next
  case (Cons d ds)
  obtain dx dy where d: "d = (dx, dy)" by (cases d)
  show ?case
  proof (cases "(dx = 0 \<and> dy = 0) \<or> (x + dx, y + dy) \<notin> unvisited s")
    case True
    then show ?thesis using Cons.IH[OF Cons.prems] by (simp add: d flood_nbrs_Cons)
  next
    case False
    then have unv: "(x + dx, y + dy) \<in> unvisited s" by simp
    from P[OF Cons.prems(1) unv Cons.prems(2)]
    obtain s1 where s1: "flood n (x + dx) (y + dy) s = Some s1" by auto
    note r = flood_rel[OF s1 Cons.prems(1) unv]
    have "card (unvisited s1) \<le> card (unvisited s)"
      using floodR_mono(1)[of s s1] r by (intro card_mono finite_unvisited) simp
    then have "flood_nbrs n x y ds s1 \<noteq> None"
      using Cons.IH[OF floodR_mono(3)[of s s1]] r Cons.prems(2) by simp
    then show ?thesis using False s1 by (auto simp: d flood_nbrs_Cons)
  qed
qed

lemma flood_terminates:
  "wf_flood s \<Longrightarrow> (x, y) \<in> unvisited s \<Longrightarrow> card (unvisited s) \<le> n \<Longrightarrow> flood n x y s \<noteq> None"
proof (induction n arbitrary: x y s)
  case 0
  then have "unvisited s = {}" using finite_unvisited[of s] by simp
  then show ?case using "0.prems"(2) by simp
next
  case (Suc n)
  let ?s1 = "mark s x y"
  have xy: "inMap (fmap s) x y" using Suc.prems(2) by (simp add: unvisited_def)
  have u: "unvisited ?s1 = unvisited s - {(x, y)}" using Suc.prems(1) xy by (rule unvisited_mark)
  have "card (unvisited ?s1) = card (unvisited s) - 1"
    unfolding u using Suc.prems(2) finite_unvisited[of s] by simp
  then have c: "card (unvisited ?s1) \<le> n" using Suc.prems(3) by simp
  have "flood_nbrs n x y ds ?s1 \<noteq> None" for ds
    using flood_nbrs_terminates[OF Suc.IH wf_flood_mark[OF Suc.prems(1)] c] by blast
  then show ?case by (simp add: flood_Suc)
qed

lemma length_pairs: "length [(x, y). y \<leftarrow> ys, x \<leftarrow> xs] = length ys * length xs"
  by (induction ys) auto

lemma length_cells_yx: "length (cells_yx m) = nat (h m) * nat (w m)"
  by (simp add: cells_yx_def length_pairs)

lemma length_cells_yx_inMap: "inMap m x y \<Longrightarrow> length (cells_yx m) = nat (w m * h m)"
  by (simp add: length_cells_yx inMap_def nat_mult_distrib mult.commute)

text \<open>The state in which \<open>floodFill\<close> makes its call of \<open>_flood\<close>.\<close>

lemma flood_init:
  fixes m :: Map_obj
  defines "s0 \<equiv> \<lparr>fmap = m, visited = replicate (nat (w m)) (replicate (nat (h m)) False), calls = []\<rparr>"
  assumes "wf_map m"
  shows "wf_flood s0" "unvisited s0 = set (cells_yx m)"
proof -
  show "wf_flood s0" using assms by (simp add: wf_flood_def)
  show "unvisited s0 = set (cells_yx m)"
    by (auto simp: unvisited_def s0_def set_cells_yx inMap_def)
qed

lemma floodFill_log_props:
  assumes "wf_map m" "floodFill_log depth m x y = Some (m', cs)"
  shows "wf_map m'" "w m' = w m" "h m' = h m"
    "\<And>a b i. i \<noteq> 3 \<Longrightarrow> getCell m' a b i = getCell m a b i"
    "distinct cs" "set cs \<subseteq> set (cells_yx m)"
    "\<And>a b. getCell m' a b 3 =
       (if (a, b) \<in> set cs \<or> (inMap m x y \<and> a = x \<and> b = y) then Some 0 else getCell m a b 3)"
proof -
  let ?m1 = "setCell m x y 3 0"
  let ?s0 = "\<lparr>fmap = ?m1, visited = replicate (nat (w ?m1)) (replicate (nat (h ?m1)) False), calls = []\<rparr>"
  have wf1: "wf_map ?m1" using assms(1) by (rule wf_setCell)
  have all: "wf_map m' \<and> w m' = w m \<and> h m' = h m \<and>
    (\<forall>a b i. i \<noteq> 3 \<longrightarrow> getCell m' a b i = getCell m a b i) \<and>
    distinct cs \<and> set cs \<subseteq> set (cells_yx m) \<and>
    (\<forall>a b. getCell m' a b 3 =
       (if (a, b) \<in> set cs \<or> (inMap m x y \<and> a = x \<and> b = y) then Some 0 else getCell m a b 3))"
  proof (cases "getCell m x y 0 = Some 0")
    case False
    then have "m' = ?m1" "cs = []" using assms(2) by (simp_all add: floodFill_log_def Let_def)
    then show ?thesis using assms(1) wf1 by (simp add: getCell_setCell)
  next
    case True
    then obtain s where run: "flood depth x y ?s0 = Some s" and res: "m' = fmap s" "cs = calls s"
      using assms(2) by (auto simp: floodFill_log_def Let_def split: option.splits)
    have xy: "inMap m x y" using True by (rule getCell_Some_inMap)
    note i0 = flood_init[OF wf1]
    have unv: "(x, y) \<in> unvisited ?s0" using xy unfolding i0(2) by (simp add: set_cells_yx)
    from flood_rel[OF run i0(1) unv] have r: "floodR ?s0 s" by blast
    then obtain new where new: "calls s = new" "distinct new" "set new \<subseteq> unvisited ?s0"
      "\<And>a b. getCell (fmap s) a b 3 = (if (a, b) \<in> set new then Some 0 else getCell ?m1 a b 3)"
      unfolding floodR_def by auto
    have fr: "wf_map (fmap s)" "w (fmap s) = w m" "h (fmap s) = h m"
      "\<And>a b i. i \<noteq> 3 \<Longrightarrow> getCell (fmap s) a b i = getCell m a b i"
      using r assms(1) by (simp_all add: floodR_def wf_flood_def getCell_setCell)
    show ?thesis
      unfolding res using fr new(2) new(3)[unfolded i0(2)] new(4) assms(1)
      by (auto simp: new(1) getCell_setCell)
  qed
  show "wf_map m'" "w m' = w m" "h m' = h m"
    "\<And>a b i. i \<noteq> 3 \<Longrightarrow> getCell m' a b i = getCell m a b i"
    "distinct cs" "set cs \<subseteq> set (cells_yx m)"
    "\<And>a b. getCell m' a b 3 =
       (if (a, b) \<in> set cs \<or> (inMap m x y \<and> a = x \<and> b = y) then Some 0 else getCell m a b 3)"
    using all by blast+
qed

lemma floodFill_log_terminates:
  assumes "wf_map m" "inMap m x y" "nat (w m * h m) \<le> depth"
  shows "floodFill_log depth m x y \<noteq> None"
proof -
  let ?m1 = "setCell m x y 3 0"
  let ?s0 = "\<lparr>fmap = ?m1, visited = replicate (nat (w ?m1)) (replicate (nat (h ?m1)) False), calls = []\<rparr>"
  have wf1: "wf_map ?m1" using assms(1) by (rule wf_setCell)
  note i0 = flood_init[OF wf1]
  have unv: "(x, y) \<in> unvisited ?s0" using assms(2) unfolding i0(2) by (simp add: set_cells_yx)
  have "card (unvisited ?s0) = length (cells_yx m)"
    unfolding i0(2) using distinct_card[OF distinct_cells_yx, of m] by simp
  then have "card (unvisited ?s0) \<le> depth"
    using assms(2,3) by (simp add: length_cells_yx_inMap)
  from flood_terminates[OF i0(1) unv this]
  show ?thesis by (auto simp: floodFill_log_def Let_def split: option.splits)
qed

text \<open>More depth than needed changes nothing.\<close>

lemma flood_nbrs_depth_Suc:
  assumes P: "\<And>x y s s'. flood n x y s = Some s' \<Longrightarrow> flood (Suc n) x y s = Some s'"
  shows "flood_nbrs n x y ds s = Some s' \<Longrightarrow> flood_nbrs (Suc n) x y ds s = Some s'"
proof (induction ds arbitrary: s)
  case Nil
  then show ?case by simp
next
  case (Cons d ds)
  obtain dx dy where d: "d = (dx, dy)" by (cases d)
  show ?case
  proof (cases "(dx = 0 \<and> dy = 0) \<or> (x + dx, y + dy) \<notin> unvisited s")
    case True
    then show ?thesis using Cons by (simp add: d flood_nbrs_Cons)
  next
    case False
    then obtain s1 where s1: "flood n (x + dx) (y + dy) s = Some s1"
      and run: "flood_nbrs n x y ds s1 = Some s'"
      using Cons.prems by (auto simp: d flood_nbrs_Cons split: option.splits)
    show ?thesis using False P[OF s1] Cons.IH[OF run] by (auto simp: d flood_nbrs_Cons)
  qed
qed

lemma flood_depth_Suc: "flood n x y s = Some s' \<Longrightarrow> flood (Suc n) x y s = Some s'"
proof (induction n arbitrary: x y s s')
  case 0
  then show ?case by simp
next
  case (Suc n)
  show ?case
  proof (cases "getCell (fmap (mark s x y)) x y 0 \<noteq> Some 0")
    case True
    then show ?thesis using Suc.prems by (simp add: flood_Suc)
  next
    case False
    then have "flood_nbrs n x y [(dx, dy). dx \<leftarrow> [-1, 0, 1], dy \<leftarrow> [-1, 0, 1]] (mark s x y) = Some s'"
      using Suc.prems by (simp add: flood_Suc)
    from flood_nbrs_depth_Suc[OF Suc.IH this] False show ?thesis
      by (simp add: flood_Suc[of "Suc n"])
  qed
qed

lemma flood_depth_mono: "n \<le> k \<Longrightarrow> flood n x y s = Some s' \<Longrightarrow> flood k x y s = Some s'"
  by (induction k) (auto simp: le_Suc_eq flood_depth_Suc)

lemma floodFill_log_depth_mono:
  assumes "n \<le> k" "floodFill_log n m x y = Some r"
  shows "floodFill_log k m x y = Some r"
proof (cases "getCell m x y 0 = Some 0")
  case False
  then show ?thesis using assms(2) by (simp add: floodFill_log_def Let_def)
next
  case True
  then obtain s where "flood n x y \<lparr>fmap = setCell m x y 3 0,
       visited = replicate (nat (w m)) (replicate (nat (h m)) False), calls = []\<rparr> = Some s"
    and "r = (fmap s, calls s)"
    using assms(2) by (auto simp: floodFill_log_def Let_def split: option.splits)
  then show ?thesis using flood_depth_mono[OF assms(1)] True
    by (simp add: floodFill_log_def Let_def)
qed

lemma newCalls_floodR:
  assumes "floodR s s'"
  shows "calls s' = calls s @ newCalls s s'" "distinct (newCalls s s')"
    "set (newCalls s s') \<subseteq> unvisited s" "unvisited s' = unvisited s - set (newCalls s s')"
    "\<And>a b. getCell (fmap s') a b 3 =
       (if (a, b) \<in> set (newCalls s s') then Some 0 else getCell (fmap s) a b 3)"
proof -
  from assms obtain new where n: "calls s' = calls s @ new" "distinct new"
      "set new \<subseteq> unvisited s" "unvisited s' = unvisited s - set new"
      "\<And>a b. getCell (fmap s') a b 3 = (if (a, b) \<in> set new then Some 0 else getCell (fmap s) a b 3)"
    unfolding floodR_def by blast
  have e: "newCalls s s' = new" by (simp add: newCalls_def n(1))
  show "calls s' = calls s @ newCalls s s'" "distinct (newCalls s s')"
    "set (newCalls s s') \<subseteq> unvisited s" "unvisited s' = unvisited s - set (newCalls s s')"
    "\<And>a b. getCell (fmap s') a b 3 =
       (if (a, b) \<in> set (newCalls s s') then Some 0 else getCell (fmap s) a b 3)"
    unfolding e using n by simp_all
qed

lemma newCalls_trans:
  assumes "floodR s s1" "floodR s1 s2"
  shows "newCalls s s2 = newCalls s s1 @ newCalls s1 s2"
proof -
  obtain new1 where n1: "calls s1 = calls s @ new1"
    using newCalls_floodR(1)[OF assms(1)] by blast
  obtain new2 where n2: "calls s2 = calls s1 @ new2"
    using newCalls_floodR(1)[OF assms(2)] by blast
  show ?thesis by (simp add: newCalls_def n1 n2)
qed

lemma newCalls_refl [simp]: "newCalls s s = []"
  by (simp add: newCalls_def)

lemma newCalls_mark [simp]: "newCalls s (mark s x y) = [(x, y)]"
  by (simp add: newCalls_def mark_def)

lemma floodR_slot0:
  "floodR s s' \<Longrightarrow> getCell (fmap s') a b 0 = getCell (fmap s) a b 0"
  by (simp add: floodR_def)

lemma closedNew_trans:
  assumes "floodR s s1" "floodR s1 s2" "closedNew s s1" "closedNew s1 s2"
  shows "closedNew s s2"
  unfolding closedNew_def
proof (clarify)
  fix a b dx dy
  assume ab: "(a, b) \<in> set (newCalls s s2)" and z: "getCell (fmap s2) a b 0 = Some 0"
    and d: "(dx, dy) \<in> set offsets8" and i: "inMap (fmap s2) (a + dx) (b + dy)"
    and u: "(a + dx, b + dy) \<in> unvisited s2"
  from ab consider (one) "(a, b) \<in> set (newCalls s s1)" | (two) "(a, b) \<in> set (newCalls s1 s2)"
    by (auto simp: newCalls_trans[OF assms(1,2)])
  then show False
  proof cases
    case one
    have "getCell (fmap s1) a b 0 = Some 0" using z floodR_slot0[OF assms(2)] by simp
    moreover have "inMap (fmap s1) (a + dx) (b + dy)" using i floodR_mono(2)[OF assms(2)] by simp
    ultimately have "(a + dx, b + dy) \<notin> unvisited s1"
      using assms(3) one d unfolding closedNew_def by blast
    then show False using u floodR_mono(1)[OF assms(2)] by auto
  next
    case two
    then show False using assms(4) z d i u unfolding closedNew_def by blast
  qed
qed

lemma flood_nbrs_rel':
  "flood_nbrs n x y ds s = Some s' \<Longrightarrow> wf_flood s \<Longrightarrow>
   floodR s s' \<and>
   (\<forall>(dx, dy) \<in> set ds. \<not> (dx = 0 \<and> dy = 0) \<longrightarrow> (x + dx, y + dy) \<notin> unvisited s')"
  by (rule flood_nbrs_rel[OF flood_rel])

lemma flood_nbrs_closed:
  assumes P: "\<And>x y s s'. flood n x y s = Some s' \<Longrightarrow> wf_flood s \<Longrightarrow> (x, y) \<in> unvisited s \<Longrightarrow>
                closedNew s s'"
  shows "flood_nbrs n x y ds s = Some s' \<Longrightarrow> wf_flood s \<Longrightarrow> closedNew s s'"
proof (induction ds arbitrary: s)
  case Nil
  then show ?case by (simp add: closedNew_def)
next
  case (Cons d ds)
  obtain dx dy where d: "d = (dx, dy)" by (cases d)
  show ?case
  proof (cases "(dx = 0 \<and> dy = 0) \<or> (x + dx, y + dy) \<notin> unvisited s")
    case True
    then have "flood_nbrs n x y ds s = Some s'"
      using Cons.prems(1) by (simp add: d flood_nbrs_Cons)
    then show ?thesis using Cons.IH Cons.prems(2) by blast
  next
    case False
    then obtain s1 where s1: "flood n (x + dx) (y + dy) s = Some s1"
      and run: "flood_nbrs n x y ds s1 = Some s'"
      using Cons.prems(1) by (auto simp: d flood_nbrs_Cons split: option.splits)
    from False have unv: "(x + dx, y + dy) \<in> unvisited s" by simp
    have r1: "floodR s s1" using flood_rel[OF s1 Cons.prems(2) unv] by blast
    have w1: "wf_flood s1" using r1 by (rule floodR_mono(3))
    have r2: "floodR s1 s'" using flood_nbrs_rel'[OF run w1] by blast
    show ?thesis
      using closedNew_trans[OF r1 r2 P[OF s1 Cons.prems(2) unv] Cons.IH[OF run w1]] .
  qed
qed

lemma offsets_xy_set: "set [(dx, dy). dx \<leftarrow> [-1, 0, 1], dy \<leftarrow> [-1, 0, 1::int]] = {-1, 0, 1::int} \<times> {-1, 0, 1}"
  by auto

lemma offsets8_set:
  "set offsets8 = set [(dx, dy). dx \<leftarrow> [-1, 0, 1], dy \<leftarrow> [-1, 0, 1]] - {(0, 0)}"
  unfolding offsets_xy_set offsets8_def set_filter offsets9_set by blast

lemma flood_closed:
  "flood n x y s = Some s' \<Longrightarrow> wf_flood s \<Longrightarrow> (x, y) \<in> unvisited s \<Longrightarrow> closedNew s s'"
proof (induction n arbitrary: x y s s')
  case 0
  then show ?case by simp
next
  case (Suc n)
  let ?s1 = "mark s x y"
  let ?offs = "[(dx, dy). dx \<leftarrow> [-1, 0, 1], dy \<leftarrow> [-1, 0, 1]]"
  have r1: "floodR s ?s1" using Suc.prems(2,3) by (rule floodR_mark)
  have w1: "wf_flood ?s1" using r1 by (rule floodR_mono(3))
  show ?case
  proof (cases "getCell (fmap ?s1) x y 0 \<noteq> Some 0")
    case True
    then have "s' = ?s1" using Suc.prems(1) by (simp add: flood_Suc)
    then show ?thesis using True by (simp add: closedNew_def)
  next
    case False
    then have run: "flood_nbrs n x y ?offs ?s1 = Some s'"
      using Suc.prems(1) by (simp add: flood_Suc)
    note rel = flood_nbrs_rel'[OF run w1]
    have r2: "floodR ?s1 s'" using rel by blast
    have c2: "closedNew ?s1 s'" using flood_nbrs_closed[OF Suc.IH run w1] .
    have nc: "newCalls s s' = (x, y) # newCalls ?s1 s'"
      using newCalls_trans[OF r1 r2] by simp
    show ?thesis
      unfolding closedNew_def nc
    proof (clarify)
      fix a b dx dy
      assume ab: "(a, b) \<in> set ((x, y) # newCalls ?s1 s')"
        and z: "getCell (fmap s') a b 0 = Some 0"
        and d: "(dx, dy) \<in> set offsets8" and i: "inMap (fmap s') (a + dx) (b + dy)"
        and u: "(a + dx, b + dy) \<in> unvisited s'"
      show False
      proof (cases "(a, b) \<in> set (newCalls ?s1 s')")
        case True
        then show False using c2 z d i u unfolding closedNew_def by blast
      next
        case False
        then have e: "a = x" "b = y" using ab by auto
        have "(dx, dy) \<in> set ?offs" "\<not> (dx = 0 \<and> dy = 0)"
          using d unfolding offsets8_set by auto
        then have "(x + dx, y + dy) \<notin> unvisited s'" using rel by blast
        then show False using u e by simp
      qed
    qed
  qed
qed

lemma zero_safe_floodR: "floodR s s' \<Longrightarrow> zero_safe (fmap s) \<Longrightarrow> zero_safe (fmap s')"
  unfolding zero_safe_def floodR_def
  by (simp add: cells_yx_def)

lemma floodR_slot1:
  "floodR s s' \<Longrightarrow> getCell (fmap s') a b 1 = getCell (fmap s) a b 1"
  by (simp add: floodR_def)

lemma zero_safe_nbr:
  assumes "zero_safe m" "getCell m x y 0 = Some 0" "(dx, dy) \<in> set offsets9"
  shows "getCell m (x + dx) (y + dy) 1 \<noteq> Some 1"
proof -
  have "(x, y) \<in> set (cells_yx m)"
    using getCell_Some_inMap[OF assms(2)] by (simp add: set_cells_yx)
  then show ?thesis using assms unfolding zero_safe_def by blast
qed

text \<open>From a cell without a bomb, \<open>_flood\<close> is only ever invoked on cells without a bomb.\<close>

lemma flood_nbrs_no_bomb:
  assumes P: "\<And>x y s s'. flood n x y s = Some s' \<Longrightarrow> wf_flood s \<Longrightarrow> (x, y) \<in> unvisited s \<Longrightarrow>
                zero_safe (fmap s) \<Longrightarrow> getCell (fmap s) x y 1 \<noteq> Some 1 \<Longrightarrow>
                (\<forall>(a, b) \<in> set (newCalls s s'). getCell (fmap s) a b 1 \<noteq> Some 1)"
  shows "flood_nbrs n x y ds s = Some s' \<Longrightarrow> wf_flood s \<Longrightarrow> zero_safe (fmap s) \<Longrightarrow>
         getCell (fmap s) x y 0 = Some 0 \<Longrightarrow> set ds \<subseteq> set offsets9 \<Longrightarrow>
         (\<forall>(a, b) \<in> set (newCalls s s'). getCell (fmap s) a b 1 \<noteq> Some 1)"
proof (induction ds arbitrary: s)
  case Nil
  then show ?case by simp
next
  case (Cons d ds)
  obtain dx dy where d: "d = (dx, dy)" by (cases d)
  have sub: "set ds \<subseteq> set offsets9" and dm: "(dx, dy) \<in> set offsets9"
    using Cons.prems(5) by (auto simp: d)
  show ?case
  proof (cases "(dx = 0 \<and> dy = 0) \<or> (x + dx, y + dy) \<notin> unvisited s")
    case True
    then have "flood_nbrs n x y ds s = Some s'"
      using Cons.prems(1) by (simp add: d flood_nbrs_Cons)
    then show ?thesis using Cons.IH Cons.prems(2,3,4) sub by blast
  next
    case False
    then obtain s1 where s1: "flood n (x + dx) (y + dy) s = Some s1"
      and run: "flood_nbrs n x y ds s1 = Some s'"
      using Cons.prems(1) by (auto simp: d flood_nbrs_Cons split: option.splits)
    from False have unv: "(x + dx, y + dy) \<in> unvisited s" by simp
    have nb: "getCell (fmap s) (x + dx) (y + dy) 1 \<noteq> Some 1"
      using zero_safe_nbr[OF Cons.prems(3,4) dm] .
    have r1: "floodR s s1" using flood_rel[OF s1 Cons.prems(2) unv] by blast
    have w1: "wf_flood s1" using r1 by (rule floodR_mono(3))
    have r2: "floodR s1 s'" using flood_nbrs_rel'[OF run w1] by blast
    have z1: "zero_safe (fmap s1)" using r1 Cons.prems(3) by (rule zero_safe_floodR)
    have c1: "getCell (fmap s1) x y 0 = Some 0" using Cons.prems(4) floodR_slot0[OF r1] by simp
    note a = P[OF s1 Cons.prems(2) unv Cons.prems(3) nb]
    note b = Cons.IH[OF run w1 z1 c1 sub]
    show ?thesis
      using a b by (auto simp: newCalls_trans[OF r1 r2] floodR_slot1[OF r1])
  qed
qed

lemma offsets_xy_offsets9:
  "set [(dx, dy). dx \<leftarrow> [-1, 0, 1], dy \<leftarrow> [-1, 0, 1::int]] \<subseteq> set offsets9"
  unfolding offsets_xy_set offsets9_set by simp

lemma flood_no_bomb:
  "flood n x y s = Some s' \<Longrightarrow> wf_flood s \<Longrightarrow> (x, y) \<in> unvisited s \<Longrightarrow>
   zero_safe (fmap s) \<Longrightarrow> getCell (fmap s) x y 1 \<noteq> Some 1 \<Longrightarrow>
   (\<forall>(a, b) \<in> set (newCalls s s'). getCell (fmap s) a b 1 \<noteq> Some 1)"
proof (induction n arbitrary: x y s s')
  case 0
  then show ?case by simp
next
  case (Suc n)
  let ?s1 = "mark s x y"
  let ?offs = "[(dx, dy). dx \<leftarrow> [-1, 0, 1], dy \<leftarrow> [-1, 0, 1]]"
  have r1: "floodR s ?s1" using Suc.prems(2,3) by (rule floodR_mark)
  have w1: "wf_flood ?s1" using r1 by (rule floodR_mono(3))
  show ?case
  proof (cases "getCell (fmap ?s1) x y 0 \<noteq> Some 0")
    case True
    then have "s' = ?s1" using Suc.prems(1) by (simp add: flood_Suc)
    then show ?thesis using Suc.prems(5) by simp
  next
    case False
    then have run: "flood_nbrs n x y ?offs ?s1 = Some s'"
      using Suc.prems(1) by (simp add: flood_Suc)
    have r2: "floodR ?s1 s'" using flood_nbrs_rel'[OF run w1] by blast
    have z1: "zero_safe (fmap ?s1)" using r1 Suc.prems(4) by (rule zero_safe_floodR)
    have c1: "getCell (fmap ?s1) x y 0 = Some 0" using False by simp
    note b = flood_nbrs_no_bomb[OF Suc.IH run w1 z1 c1 offsets_xy_offsets9]
    show ?thesis
      using b Suc.prems(5) by (auto simp: newCalls_trans[OF r1 r2] floodR_slot1[OF r1])
  qed
qed

lemma floodFill_log_flood:
  assumes "wf_map m" "floodFill_log depth m x y = Some (m', cs)" "getCell m x y 0 = Some 0"
  defines "s0 \<equiv> \<lparr>fmap = setCell m x y 3 0,
                  visited = replicate (nat (w m)) (replicate (nat (h m)) False), calls = []\<rparr>"
  shows "\<exists>s. flood depth x y s0 = Some s \<and> m' = fmap s \<and> cs = newCalls s0 s \<and> wf_flood s0 \<and>
             (x, y) \<in> unvisited s0 \<and> unvisited s0 = set (cells_yx m)"
proof -
  have wf1: "wf_map (setCell m x y 3 0)" using assms(1) by (rule wf_setCell)
  note i0 = flood_init[OF wf1, simplified, folded s0_def]
  have xy: "inMap m x y" using assms(3) by (rule getCell_Some_inMap)
  obtain s where run: "flood depth x y s0 = Some s" and res: "m' = fmap s" "cs = calls s"
    using assms(2,3) by (auto simp: floodFill_log_def Let_def s0_def split: option.splits)
  have "newCalls s0 s = calls s" by (simp add: newCalls_def s0_def)
  then show ?thesis using run res i0 xy by (simp add: set_cells_yx)
qed

lemma floodFill_log_closed:
  assumes "wf_map m" "floodFill_log depth m x y = Some (m', cs)"
  shows "getCell m x y 0 = Some 0 \<longrightarrow> (x, y) \<in> set cs"
    "\<forall>(a, b) \<in> set cs. getCell m a b 0 = Some 0 \<longrightarrow>
       (\<forall>(dx, dy) \<in> set offsets8. inMap m (a + dx) (b + dy) \<longrightarrow> (a + dx, b + dy) \<in> set cs)"
proof -
  let ?m1 = "setCell m x y 3 0"
  let ?s0 = "\<lparr>fmap = ?m1, visited = replicate (nat (w m)) (replicate (nat (h m)) False), calls = []\<rparr>"
  have both: "(getCell m x y 0 = Some 0 \<longrightarrow> (x, y) \<in> set cs) \<and>
    (\<forall>(a, b) \<in> set cs. getCell m a b 0 = Some 0 \<longrightarrow>
       (\<forall>(dx, dy) \<in> set offsets8. inMap m (a + dx) (b + dy) \<longrightarrow> (a + dx, b + dy) \<in> set cs))"
  proof (cases "getCell m x y 0 = Some 0")
    case False
    then have "cs = []" using assms(2) by (simp add: floodFill_log_def Let_def)
    then show ?thesis using False by simp
  next
    case True
    from floodFill_log_flood[OF assms True]
    obtain s where run: "flood depth x y ?s0 = Some s" and res: "m' = fmap s" "cs = newCalls ?s0 s"
      and w0: "wf_flood ?s0" and unv: "(x, y) \<in> unvisited ?s0"
      and u0: "unvisited ?s0 = set (cells_yx m)" by blast
    note rel = flood_rel[OF run w0 unv]
    then have r: "floodR ?s0 s" by blast
    have us: "unvisited s = set (cells_yx m) - set cs"
      using newCalls_floodR(4)[OF r] by (simp add: u0 res)
    have start: "(x, y) \<in> set cs" using rel unv unfolding us u0 by simp
    have cl: "closedNew ?s0 s" using flood_closed[OF run w0 unv] .
    have s0: "getCell (fmap s) a b 0 = getCell m a b 0" for a b
      using floodR_slot0[OF r] assms(1) by (simp add: getCell_setCell)
    have im: "inMap (fmap s) a b = inMap m a b" for a b
      using floodR_mono(2)[OF r] by simp
    have "\<forall>(a, b) \<in> set cs. getCell m a b 0 = Some 0 \<longrightarrow>
       (\<forall>(dx, dy) \<in> set offsets8. inMap m (a + dx) (b + dy) \<longrightarrow> (a + dx, b + dy) \<in> set cs)"
      using cl unfolding closedNew_def res(2)[symmetric] s0 im us
      by (auto simp: set_cells_yx)
    then show ?thesis using start by simp
  qed
  show "getCell m x y 0 = Some 0 \<longrightarrow> (x, y) \<in> set cs"
    "\<forall>(a, b) \<in> set cs. getCell m a b 0 = Some 0 \<longrightarrow>
       (\<forall>(dx, dy) \<in> set offsets8. inMap m (a + dx) (b + dy) \<longrightarrow> (a + dx, b + dy) \<in> set cs)"
    using both by blast+
qed

lemma zero_safe_setCell3: "wf_map m \<Longrightarrow> zero_safe m \<Longrightarrow> zero_safe (setCell m x y 3 v)"
  unfolding zero_safe_def by (simp add: getCell_setCell)

lemma floodFill_log_no_bomb:
  assumes "wf_map m" "floodFill_log depth m x y = Some (m', cs)"
    and "zero_safe m" "getCell m x y 1 \<noteq> Some 1"
  shows "\<forall>(a, b) \<in> set cs. getCell m a b 1 \<noteq> Some 1"
proof (cases "getCell m x y 0 = Some 0")
  case False
  then have "cs = []" using assms(2) by (simp add: floodFill_log_def Let_def)
  then show ?thesis by simp
next
  case True
  let ?m1 = "setCell m x y 3 0"
  let ?s0 = "\<lparr>fmap = ?m1, visited = replicate (nat (w m)) (replicate (nat (h m)) False), calls = []\<rparr>"
  from floodFill_log_flood[OF assms(1,2) True]
  obtain s where run: "flood depth x y ?s0 = Some s" and res: "cs = newCalls ?s0 s"
    and w0: "wf_flood ?s0" and unv: "(x, y) \<in> unvisited ?s0" by blast
  have z: "zero_safe (fmap ?s0)" using assms(1,3) by (simp add: zero_safe_setCell3)
  have nb: "getCell (fmap ?s0) x y 1 \<noteq> Some 1" using assms(1,4) by (simp add: getCell_setCell)
  from flood_no_bomb[OF run w0 unv z nb]
  show ?thesis using assms(1) by (simp add: res getCell_setCell)
qed

subsection \<open>Termination and the flags\<close>

text \<open>
  Claim C3. From an in-bounds start on a well-shaped board, \<open>floodFill\<close> returns,
  with one and the same result, whenever the recursion may go at least \<open>w * h\<close>
  deep; \<open>_flood\<close> is invoked on distinct cells of the board, so at most \<open>w * h\<close>
  times.
\<close>

theorem floodFill_terminates:
  assumes "wf_map m" and "inMap m startX startY"
  shows "\<exists>m' cs.
           (\<forall>depth \<ge> nat (w m * h m).
              floodFill_log depth m startX startY = Some (m', cs) \<and>
              floodFill depth m startX startY = Some m') \<and>
           distinct cs \<and> set cs \<subseteq> set (cells_yx m) \<and> length cs \<le> nat (w m * h m)"
proof -
  let ?n = "nat (w m * h m)"
  from floodFill_log_terminates[OF assms, of ?n]
  obtain m' cs where run: "floodFill_log ?n m startX startY = Some (m', cs)" by auto
  note p = floodFill_log_props[OF assms(1) run]
  have "length cs = card (set cs)" using p(5) by (simp add: distinct_card)
  also have "\<dots> \<le> card (set (cells_yx m))" using p(6) by (intro card_mono) simp_all
  also have "\<dots> = ?n"
    using distinct_card[OF distinct_cells_yx, of m] assms(2) by (simp add: length_cells_yx_inMap)
  finally have len: "length cs \<le> ?n" .
  have "floodFill_log depth m startX startY = Some (m', cs) \<and>
        floodFill depth m startX startY = Some m'" if "?n \<le> depth" for depth
    using floodFill_log_depth_mono[OF that run] by (simp add: floodFill_def)
  then show ?thesis using len p(5,6) by blast
qed

theorem floodFill_terminates_witness:
  "wf_map (Map_new 3 3) \<and> inMap (Map_new 3 3) 1 1 \<and> nat (w (Map_new 3 3) * h (Map_new 3 3)) \<le> 9 \<and>
   floodFill_log 9 (Map_new 3 3) 1 1 =
     Some (\<lparr>w = 3, h = 3,
            grid = [[[0, 0, 0, 0], [0, 0, 0, 0], [0, 0, 0, 0]],
                    [[0, 0, 0, 0], [0, 0, 0, 0], [0, 0, 0, 0]],
                    [[0, 0, 0, 0], [0, 0, 0, 0], [0, 0, 0, 0]]]\<rparr>,
           [(1, 1), (0, 0), (0, 1), (0, 2), (1, 2), (2, 1), (1, 0), (2, 0), (2, 2)]) \<and>
   distinct [(1, 1), (0, 0), (0, 1), (0, 2), (1, 2), (2, 1), (1, 0), (2, 0), (2::int, 2::int)] \<and>
   length [(1, 1), (0, 0), (0, 1), (0, 2), (1, 2), (2, 1), (1, 0), (2, 0), (2::int, 2::int)]
     \<le> nat (w (Map_new 3 3) * h (Map_new 3 3))"
proof -
  let ?m' = "\<lparr>w = 3, h = 3,
            grid = [[[0, 0, 0, 0], [0, 0, 0, 0], [0, 0, 0, 0]],
                    [[0, 0, 0, 0], [0, 0, 0, 0], [0, 0, 0, 0]],
                    [[0, 0, 0, 0], [0, 0, 0, 0], [0, 0, 0, 0]]]\<rparr>"
  let ?cs = "[(1, 1), (0, 0), (0, 1), (0, 2), (1, 2), (2, 1), (1, 0), (2, 0), (2::int, 2::int)]"
  have h1: "wf_map (Map_new 3 3)" by (rule wf_map_Map_new)
  have h2: "inMap (Map_new 3 3) 1 1" by (simp add: inMap_def Map_new_def)
  have h3: "nat (w (Map_new 3 3) * h (Map_new 3 3)) \<le> 9" by (simp add: Map_new_def)
  have h4: "floodFill_log 9 (Map_new 3 3) 1 1 = Some (?m', ?cs)" by code_simp
  from floodFill_terminates[OF h1 h2]
  obtain m' cs where r: "\<forall>depth \<ge> nat (w (Map_new 3 3) * h (Map_new 3 3)).
              floodFill_log depth (Map_new 3 3) 1 1 = Some (m', cs)"
    and d: "distinct cs" "length cs \<le> nat (w (Map_new 3 3) * h (Map_new 3 3))"
    by blast
  from r h3 have "floodFill_log 9 (Map_new 3 3) 1 1 = Some (m', cs)" by blast
  with h4 have "cs = ?cs" by simp
  with d have c: "distinct ?cs" "length ?cs \<le> nat (w (Map_new 3 3) * h (Map_new 3 3))"
    by blast+
  from h1 h2 h3 h4 c show ?thesis by blast
qed

text \<open>
  Claim C7. Flags play no part in the flood fill. From any start on a well-shaped
  board \<open>floodFill\<close> returns, with one and the same result, whenever the recursion
  may go at least \<open>w * h\<close> deep. The cells \<open>_flood\<close> is invoked on contain the start
  cell when its number is zero and, with every cell of number zero, all of its in-map
  neighbours, flagged or not; each of them ends uncovered, and no flag mark changes.
\<close>

theorem floodFill_ignores_flags:
  assumes "wf_map m"
  shows "\<exists>m' cs.
           (\<forall>depth \<ge> nat (w m * h m). floodFill_log depth m startX startY = Some (m', cs)) \<and>
           (getCell m startX startY 0 = Some 0 \<longrightarrow> (startX, startY) \<in> set cs) \<and>
           (\<forall>(x, y) \<in> set cs. getCell m x y 0 = Some 0 \<longrightarrow>
              (\<forall>(dx, dy) \<in> set offsets8. inMap m (x + dx) (y + dy) \<longrightarrow> (x + dx, y + dy) \<in> set cs)) \<and>
           (\<forall>(x, y) \<in> set cs. getCell m' x y 3 = Some 0 \<and> getCell m' x y 2 = getCell m x y 2)"
proof -
  let ?n = "nat (w m * h m)"
  have "floodFill_log ?n m startX startY \<noteq> None"
  proof (cases "getCell m startX startY 0 = Some 0")
    case True
    then have "inMap m startX startY" by (rule getCell_Some_inMap)
    then show ?thesis using floodFill_log_terminates[OF assms] by simp
  next
    case False
    then show ?thesis by (simp add: floodFill_log_def Let_def)
  qed
  then obtain m' cs where run: "floodFill_log ?n m startX startY = Some (m', cs)" by auto
  have every: "\<forall>depth \<ge> ?n. floodFill_log depth m startX startY = Some (m', cs)"
    using floodFill_log_depth_mono[OF _ run] by blast
  note p = floodFill_log_props[OF assms run]
  note c = floodFill_log_closed[OF assms run]
  have "\<forall>(x, y) \<in> set cs. getCell m' x y 3 = Some 0 \<and> getCell m' x y 2 = getCell m x y 2"
    using p(4)[of 2] p(7) by auto
  with every c show ?thesis by blast
qed

theorem floodFill_ignores_flags_witness:
  "wf_map \<lparr>w = 3, h = 1, grid = [[[0, 0, 0, 1], [0, 0, 1, 1], [0, 0, 0, 1]]]\<rparr> \<and>
   floodFill_log 3 \<lparr>w = 3, h = 1, grid = [[[0, 0, 0, 1], [0, 0, 1, 1], [0, 0, 0, 1]]]\<rparr> 0 0 =
     Some (\<lparr>w = 3, h = 1, grid = [[[0, 0, 0, 0], [0, 0, 1, 0], [0, 0, 0, 0]]]\<rparr>,
           [(0, 0), (1, 0), (2, 0)]) \<and>
   getCell \<lparr>w = 3, h = 1, grid = [[[0, 0, 0, 1], [0, 0, 1, 1], [0, 0, 0, 1]]]\<rparr> 1 0 2 = Some 1 \<and>
   getCell \<lparr>w = 3, h = 1, grid = [[[0, 0, 0, 1], [0, 0, 1, 1], [0, 0, 0, 1]]]\<rparr> 1 0 3 = Some 1 \<and>
   getCell \<lparr>w = 3, h = 1, grid = [[[0, 0, 0, 0], [0, 0, 1, 0], [0, 0, 0, 0]]]\<rparr> 1 0 3 = Some 0 \<and>
   getCell \<lparr>w = 3, h = 1, grid = [[[0, 0, 0, 0], [0, 0, 1, 0], [0, 0, 0, 0]]]\<rparr> 1 0 2 = Some 1"
proof -
  let ?m = "\<lparr>w = 3, h = 1, grid = [[[0, 0, 0, 1], [0, 0, 1, 1], [0, 0, 0, 1]]]\<rparr>"
  let ?m' = "\<lparr>w = 3, h = 1, grid = [[[0, 0, 0, 0], [0, 0, 1, 0], [0, 0, 0, 0]]]\<rparr>"
  have h1: "wf_map ?m" by code_simp
  have h2: "floodFill_log 3 ?m 0 0 = Some (?m', [(0, 0), (1, 0), (2, 0)])" by code_simp
  have n: "nat (w ?m * h ?m) \<le> 3" by simp
  have f: "getCell ?m 1 0 2 = Some 1" by code_simp
  have c: "getCell ?m 1 0 3 = Some 1" by code_simp
  have mem: "(1, 0) \<in> set [(0, 0), (1, 0), (2::int, 0::int)]" by simp
  from floodFill_ignores_flags[OF h1, of 0 0]
  obtain m' cs where r: "\<forall>depth \<ge> nat (w ?m * h ?m). floodFill_log depth ?m 0 0 = Some (m', cs)"
    and b: "\<forall>(x, y) \<in> set cs. getCell m' x y 3 = Some 0 \<and> getCell m' x y 2 = getCell ?m x y 2"
    by blast
  from r n have "floodFill_log 3 ?m 0 0 = Some (m', cs)" by blast
  with h2 have e: "m' = ?m'" "cs = [(0, 0), (1, 0), (2, 0)]" by simp_all
  from b mem have "getCell ?m' 1 0 3 = Some 0 \<and> getCell ?m' 1 0 2 = getCell ?m 1 0 2"
    unfolding e by blast
  with f have r: "getCell ?m' 1 0 3 = Some 0" "getCell ?m' 1 0 2 = Some 1" by simp_all
  from h1 h2 f c r show ?thesis by blast
qed

section \<open>The match and the click handlers\<close>

lemma reveal_fold:
  "wf_map m \<Longrightarrow>
   wf_map (foldl (\<lambda>m' (x, y). if getCell m' x y 1 = Some 1 then setCell m' x y 3 0 else m') m cs) \<and>
   w (foldl (\<lambda>m' (x, y). if getCell m' x y 1 = Some 1 then setCell m' x y 3 0 else m') m cs) = w m \<and>
   h (foldl (\<lambda>m' (x, y). if getCell m' x y 1 = Some 1 then setCell m' x y 3 0 else m') m cs) = h m \<and>
   (\<forall>a b i. i \<noteq> 3 \<longrightarrow>
      getCell (foldl (\<lambda>m' (x, y). if getCell m' x y 1 = Some 1 then setCell m' x y 3 0 else m') m cs) a b i
        = getCell m a b i) \<and>
   (\<forall>a b. getCell (foldl (\<lambda>m' (x, y). if getCell m' x y 1 = Some 1 then setCell m' x y 3 0 else m') m cs) a b 3
        = (if (a, b) \<in> set cs \<and> getCell m a b 1 = Some 1 then Some 0 else getCell m a b 3))"
proof (induction cs arbitrary: m)
  case Nil
  then show ?case by simp
next
  case (Cons c cs)
  obtain x y where c: "c = (x, y)" by (cases c)
  let ?m1 = "if getCell m x y 1 = Some 1 then setCell m x y 3 0 else m"
  have wf1: "wf_map ?m1" using Cons.prems by (simp add: wf_setCell)
  have s1: "getCell ?m1 a b i = getCell m a b i" if "i \<noteq> 3" for a b i
    using Cons.prems that by (simp add: getCell_setCell)
  have s3: "getCell ?m1 a b 3 = (if (a, b) = (x, y) \<and> getCell m a b 1 = Some 1 then Some 0 else getCell m a b 3)"
    for a b
    using Cons.prems getCell_Some_inMap[of m x y 1 1] by (auto simp: getCell_setCell)
  have wh: "w ?m1 = w m" "h ?m1 = h m" by simp_all
  show ?case
    using Cons.IH[OF wf1] unfolding c foldl_Cons prod.case
    by (simp only: wh s3 s1[of 1, simplified]) (auto simp: s1)
qed

lemma revealBombs_frame:
  assumes "wf_map m"
  shows "wf_map (revealBombs m)" "w (revealBombs m) = w m" "h (revealBombs m) = h m"
    "\<And>a b i. i \<noteq> 3 \<Longrightarrow> getCell (revealBombs m) a b i = getCell m a b i"
    "\<And>a b. getCell (revealBombs m) a b 3 =
       (if getCell m a b 1 = Some 1 then Some 0 else getCell m a b 3)"
proof -
  note f = reveal_fold[OF assms, of "cells_yx m", folded revealBombs_def]
  show "wf_map (revealBombs m)" "w (revealBombs m) = w m" "h (revealBombs m) = h m"
    "\<And>a b i. i \<noteq> 3 \<Longrightarrow> getCell (revealBombs m) a b i = getCell m a b i"
    using f by simp_all
  show "getCell (revealBombs m) a b 3 =
       (if getCell m a b 1 = Some 1 then Some 0 else getCell m a b 3)" for a b
    using f getCell_Some_inMap[of m a b 1 1] by (auto simp: set_cells_yx)
qed

lemma generateBombs_frame:
  assumes "wf_map m" "generateBombs bombCount sx sy draws m = Some m'"
  shows "wf_map m'" "w m' = w m" "h m' = h m"
    "\<And>a b. getCell m' a b 2 = getCell m a b 2" "\<And>a b. getCell m' a b 3 = getCell m a b 3"
  using placeLoop_frame[OF assms(1) assms(2)[unfolded generateBombs_def]] by simp_all

lemma floodFill_frame:
  assumes "wf_map m" "floodFill depth m x y = Some m'"
  shows "wf_map m'" "w m' = w m" "h m' = h m"
    "\<And>a b i. i \<noteq> 3 \<Longrightarrow> getCell m' a b i = getCell m a b i"
    "\<And>a b. getCell m a b 3 = Some 0 \<Longrightarrow> getCell m' a b 3 = Some 0"
proof -
  obtain cs where run: "floodFill_log depth m x y = Some (m', cs)"
    using assms(2) by (auto simp: floodFill_def)
  note p = floodFill_log_props[OF assms(1) run]
  show "wf_map m'" "w m' = w m" "h m' = h m"
    "\<And>a b i. i \<noteq> 3 \<Longrightarrow> getCell m' a b i = getCell m a b i"
    using p by simp_all
  show "getCell m a b 3 = Some 0 \<Longrightarrow> getCell m' a b 3 = Some 0" for a b
    using p(7)[of a b] by simp
qed

lemma start_frame:
  assumes "wf_map (gmap g)" "start x y draws g = Some g1"
  shows "wf_map (gmap g1)" "w (gmap g1) = w (gmap g)" "h (gmap g1) = h (gmap g)"
    "\<And>a b. getCell (gmap g1) a b 2 = getCell (gmap g) a b 2"
    "\<And>a b. getCell (gmap g1) a b 3 = getCell (gmap g) a b 3"
    "started g1" "flags g1 = bombs g" "bombs g1 = bombs g" "status g1 = ''playing''"
    "generateBombs (bombs g) x y draws (gmap g) = Some (gmap g1)"
proof -
  obtain m where gen: "generateBombs (bombs g) x y draws (gmap g) = Some m"
    and g1: "g1 = g\<lparr>started := True, flags := bombs g, gmap := m, status := ''playing''\<rparr>"
    using assms(2) by (auto simp: start_def Let_def split: option.splits)
  note f = generateBombs_frame[OF assms(1) gen]
  show "wf_map (gmap g1)" "w (gmap g1) = w (gmap g)" "h (gmap g1) = h (gmap g)"
    "\<And>a b. getCell (gmap g1) a b 2 = getCell (gmap g) a b 2"
    "\<And>a b. getCell (gmap g1) a b 3 = getCell (gmap g) a b 3"
    "started g1" "flags g1 = bombs g" "bombs g1 = bombs g" "status g1 = ''playing''"
    "generateBombs (bombs g) x y draws (gmap g) = Some (gmap g1)"
    using f gen by (simp_all add: g1)
qed

lemma finish_simps:
  "started (finish r g) = False" "bombs (finish r g) = bombs g" "flags (finish r g) = flags g"
  "gmap (finish r g) = (if r = ''lose'' then revealBombs (gmap g) else gmap g)"
  "status (finish r g) = (if r = ''win'' then ''won'' else ''lost'')"
  by (simp_all add: finish_def Let_def)

text \<open>The paths through \<open>cellClicked\<close>.\<close>

lemma cellClicked_cases:
  assumes "cellClicked e depth x y draws g = Some (r, g')"
  obtains
    (blocked) "turn_blocked e" "r = False" "g' = g"
  | (flagged) g1 where "\<not> turn_blocked e" "(if \<not> started g then start x y draws g else Some g) = Some g1"
      "getCell (gmap g1) x y 2 = Some 1" "r = False" "g' = g1"
  | (bomb) g1 where "\<not> turn_blocked e" "(if \<not> started g then start x y draws g else Some g) = Some g1"
      "getCell (gmap g1) x y 2 \<noteq> Some 1" "getCell (gmap g1) x y 1 = Some 1" "r = False"
      "g' = finish ''lose'' (g1\<lparr>gmap := setCell (gmap g1) x y 3 0\<rparr>)"
  | (reveal) g1 m where "\<not> turn_blocked e" "(if \<not> started g then start x y draws g else Some g) = Some g1"
      "getCell (gmap g1) x y 2 \<noteq> Some 1" "getCell (gmap g1) x y 1 \<noteq> Some 1"
      "getCell (gmap g1) x y 3 = Some 1" "floodFill depth (gmap g1) x y = Some m" "r = True"
      "g' = (if checkWin m then finish ''win'' (g1\<lparr>gmap := m\<rparr>) else g1\<lparr>gmap := m\<rparr>)"
  | (uncovered) g1 where "\<not> turn_blocked e" "(if \<not> started g then start x y draws g else Some g) = Some g1"
      "getCell (gmap g1) x y 2 \<noteq> Some 1" "getCell (gmap g1) x y 1 \<noteq> Some 1"
      "getCell (gmap g1) x y 3 \<noteq> Some 1" "r = False" "g' = g1"
proof (cases "turn_blocked e")
  case True
  then show ?thesis using assms blocked by (simp add: cellClicked_def)
next
  case False
  then obtain g1 where g1: "(if \<not> started g then start x y draws g else Some g) = Some g1"
    using assms by (auto simp: cellClicked_def split: option.splits)
  have body: "Some (r, g') =
     (if getCell (gmap g1) x y 2 = Some 1 then Some (False, g1)
      else if getCell (gmap g1) x y 1 = Some 1 then
        Some (False, finish ''lose'' (g1\<lparr>gmap := setCell (gmap g1) x y 3 0\<rparr>))
      else if getCell (gmap g1) x y 3 = Some 1 then
        (case floodFill depth (gmap g1) x y of
           None \<Rightarrow> None
         | Some m \<Rightarrow>
             if checkWin m then Some (True, finish ''win'' (g1\<lparr>gmap := m\<rparr>))
             else Some (True, g1\<lparr>gmap := m\<rparr>))
      else Some (False, g1))"
    using assms False g1 unfolding cellClicked_def by simp
  consider (a) "getCell (gmap g1) x y 2 = Some 1"
    | (b) "getCell (gmap g1) x y 2 \<noteq> Some 1" "getCell (gmap g1) x y 1 = Some 1"
    | (c) "getCell (gmap g1) x y 2 \<noteq> Some 1" "getCell (gmap g1) x y 1 \<noteq> Some 1"
        "getCell (gmap g1) x y 3 = Some 1"
    | (d) "getCell (gmap g1) x y 2 \<noteq> Some 1" "getCell (gmap g1) x y 1 \<noteq> Some 1"
        "getCell (gmap g1) x y 3 \<noteq> Some 1"
    by blast
  then show ?thesis
  proof cases
    case a
    then show ?thesis using body flagged[OF False g1] by simp
  next
    case b
    then show ?thesis using body bomb[OF False g1] by simp
  next
    case c
    then obtain m where m: "floodFill depth (gmap g1) x y = Some m"
      using body by (auto split: option.splits)
    then show ?thesis using c body reveal[OF False g1 c m] by (simp split: if_splits)
  next
    case d
    then show ?thesis using body uncovered[OF False g1] by simp
  qed
qed

lemma covered_mono_refl: "wf_map m \<Longrightarrow> covered_mono m m"
  by (simp add: covered_mono_def)

lemma covered_mono_trans: "covered_mono m m1 \<Longrightarrow> covered_mono m1 m2 \<Longrightarrow> covered_mono m m2"
  by (simp add: covered_mono_def)

lemma covered_mono_setCell:
  "wf_map m \<Longrightarrow> i < 4 \<Longrightarrow> i = 3 \<longrightarrow> v = 0 \<Longrightarrow> covered_mono m (setCell m x y i v)"
  by (auto simp: covered_mono_def wf_setCell getCell_setCell)

lemma covered_mono_revealBombs: "wf_map m \<Longrightarrow> covered_mono m (revealBombs m)"
  by (simp add: covered_mono_def revealBombs_frame)

lemma cellRightClicked_gmap:
  "gmap (cellRightClicked x y g) = gmap g \<or>
   gmap (cellRightClicked x y g) = setCell (gmap g) x y 2 1 \<or>
   gmap (cellRightClicked x y g) = setCell (gmap g) x y 2 0"
  by (auto simp: cellRightClicked_def placeFlag_def removeFlag_def)

lemma covered_mono_cellRightClicked:
  assumes "wf_map (gmap g)"
  shows "covered_mono (gmap g) (gmap (cellRightClicked x y g))"
  using cellRightClicked_gmap[of x y g] covered_mono_refl[OF assms]
    covered_mono_setCell[OF assms, of 2 1 x y] covered_mono_setCell[OF assms, of 2 0 x y]
  by auto

lemma covered_mono_finish:
  assumes "wf_map (gmap g)"
  shows "covered_mono (gmap g) (gmap (finish r g))"
  using covered_mono_refl[OF assms] covered_mono_revealBombs[OF assms]
  by (simp add: finish_simps)

lemma covered_mono_start:
  assumes "wf_map (gmap g)" "start x y draws g = Some g1"
  shows "covered_mono (gmap g) (gmap g1)"
  using start_frame(1,5)[OF assms] by (simp add: covered_mono_def)

lemma covered_mono_pre:
  assumes "wf_map (gmap g)" "(if \<not> started g then start x y draws g else Some g) = Some g1"
  shows "covered_mono (gmap g) (gmap g1)"
proof (cases "started g")
  case True
  then show ?thesis using assms covered_mono_refl by simp
next
  case False
  then show ?thesis using assms covered_mono_start by simp
qed

lemma covered_mono_floodFill:
  assumes "wf_map m" "floodFill depth m x y = Some m'"
  shows "covered_mono m m'"
  using floodFill_frame(1,5)[OF assms] by (simp add: covered_mono_def)

lemma covered_mono_cellClicked:
  assumes "wf_map (gmap g)" "cellClicked e depth x y draws g = Some (r, g')"
  shows "covered_mono (gmap g) (gmap g')"
  using assms(2)
proof (cases rule: cellClicked_cases)
  case blocked
  then show ?thesis using assms(1) by (simp add: covered_mono_refl)
next
  case (flagged g1)
  then show ?thesis using covered_mono_pre[OF assms(1)] by simp
next
  case (bomb g1)
  note p = covered_mono_pre[OF assms(1) bomb(2)]
  then have wf1: "wf_map (gmap g1)" by (simp add: covered_mono_def)
  have "covered_mono (gmap g1) (setCell (gmap g1) x y 3 0)"
    using wf1 by (simp add: covered_mono_setCell)
  moreover have "covered_mono (setCell (gmap g1) x y 3 0) (gmap g')"
    unfolding bomb(6) using covered_mono_finish[of "g1\<lparr>gmap := setCell (gmap g1) x y 3 0\<rparr>" "''lose''"] wf1
    by (simp add: wf_setCell)
  ultimately show ?thesis using p covered_mono_trans by blast
next
  case (reveal g1 m)
  note p = covered_mono_pre[OF assms(1) reveal(2)]
  then have wf1: "wf_map (gmap g1)" by (simp add: covered_mono_def)
  have "covered_mono (gmap g1) m" using wf1 reveal(6) by (rule covered_mono_floodFill)
  moreover have "gmap g' = m" unfolding reveal(8) by (simp add: finish_simps)
  ultimately show ?thesis using p covered_mono_trans by simp
next
  case (uncovered g1)
  then show ?thesis using covered_mono_pre[OF assms(1)] by simp
qed

lemma covered_mono_engine_step:
  assumes "engine_step g g'" "wf_map (gmap g)"
  shows "covered_mono (gmap g) (gmap g')"
  using assms
proof (cases rule: engine_step.cases)
  case (step_cellClicked e depth x y draws r)
  then show ?thesis using assms(2) covered_mono_cellClicked by blast
next
  case (step_cellRightClicked x y)
  then show ?thesis using assms(2) by (simp add: covered_mono_cellRightClicked)
next
  case (step_generateBombs bombCount x y draws m')
  then show ?thesis using generateBombs_frame(1,5)[OF assms(2)] by (simp add: covered_mono_def)
next
  case (step_floodFill depth x y m')
  then show ?thesis using covered_mono_floodFill[OF assms(2)] by simp
next
  case step_revealBombs
  then show ?thesis using assms(2) by (simp add: covered_mono_revealBombs)
next
  case (step_start x y draws)
  then show ?thesis using assms(2) covered_mono_start by blast
next
  case (step_finish result)
  then show ?thesis using assms(2) by (simp add: covered_mono_finish)
qed

lemma covered_mono_steps:
  "engine_step\<^sup>*\<^sup>* g g' \<Longrightarrow> wf_map (gmap g) \<Longrightarrow> covered_mono (gmap g) (gmap g')"
proof (induction rule: rtranclp_induct)
  case base
  then show ?case by (rule covered_mono_refl)
next
  case (step g1 g2)
  have "covered_mono (gmap g) (gmap g1)" using step by blast
  moreover from this have "wf_map (gmap g1)" by (simp add: covered_mono_def)
  ultimately show ?case using covered_mono_engine_step[OF step(2)] covered_mono_trans by blast
qed

lemma wf_initialize: "wf_map (gmap (initialize width height bombCount))"
  by (simp add: initialize_def wf_map_Map_new)

lemma cellClicked_started:
  assumes "started g"
  shows "cellClicked e depth x y draws g =
     (if turn_blocked e then Some (False, g)
      else if getCell (gmap g) x y 2 = Some 1 then Some (False, g)
      else if getCell (gmap g) x y 1 = Some 1 then
        Some (False, finish ''lose'' (g\<lparr>gmap := setCell (gmap g) x y 3 0\<rparr>))
      else if getCell (gmap g) x y 3 = Some 1 then
        (case floodFill depth (gmap g) x y of
           None \<Rightarrow> None
         | Some m \<Rightarrow>
             if checkWin m then Some (True, finish ''win'' (g\<lparr>gmap := m\<rparr>))
             else Some (True, g\<lparr>gmap := m\<rparr>))
      else Some (False, g))"
  using assms by (simp add: cellClicked_def)

lemma cellClicked_not_started:
  assumes "\<not> started g" "\<not> turn_blocked e"
  shows "cellClicked e depth x y draws g =
     (case start x y draws g of None \<Rightarrow> None | Some g1 \<Rightarrow> cellClicked e depth x y draws g1)"
proof (cases "start x y draws g")
  case None
  then show ?thesis using assms by (simp add: cellClicked_def)
next
  case (Some g1)
  then have "started g1" by (auto simp: start_def Let_def split: option.splits)
  then show ?thesis using assms Some by (simp add: cellClicked_def)
qed


subsection \<open>Reveal is one-way\<close>

text \<open>
  Claim C8. Every cell of a newly constructed board is covered. Along any sequence of
  engine operations from \<open>initialize\<close>, a cell that is uncovered in some state is
  uncovered in every later state.
\<close>

theorem covered_one_way:
  assumes "engine_step\<^sup>*\<^sup>* (initialize width height bombCount) g"
    and "engine_step\<^sup>*\<^sup>* g g'"
    and "getCell (gmap g) x y 3 = Some 0"
  shows "getCell (gmap g') x y 3 = Some 0 \<and>
         (\<forall>(a, b) \<in> set (cells_yx (Map_new width height)).
            getCell (Map_new width height) a b 3 = Some 1)"
proof -
  have "wf_map (gmap g)"
    using covered_mono_steps[OF assms(1) wf_initialize] by (simp add: covered_mono_def)
  from covered_mono_steps[OF assms(2) this] assms(3)
  have "getCell (gmap g') x y 3 = Some 0" by (simp add: covered_mono_def)
  moreover have "\<forall>(a, b) \<in> set (cells_yx (Map_new width height)).
            getCell (Map_new width height) a b 3 = Some 1"
    by (auto simp: getCell_Map_new set_cells_yx)
  ultimately show ?thesis by blast
qed

theorem covered_one_way_witness:
  "engine_step\<^sup>*\<^sup>* (initialize 5 1 1)
     (match51 True [[0, 0, 0, 0], [0, 0, 0, 0], [1, 0, 0, 0], [1, 1, 0, 1], [1, 0, 0, 1]] 1 ''playing'') \<and>
   engine_step\<^sup>*\<^sup>*
     (match51 True [[0, 0, 0, 0], [0, 0, 0, 0], [1, 0, 0, 0], [1, 1, 0, 1], [1, 0, 0, 1]] 1 ''playing'')
     (match51 False [[0, 0, 0, 0], [0, 0, 0, 0], [1, 0, 0, 0], [1, 1, 0, 0], [1, 0, 0, 1]] 1 ''lost'') \<and>
   getCell (gmap (match51 True [[0, 0, 0, 0], [0, 0, 0, 0], [1, 0, 0, 0], [1, 1, 0, 1], [1, 0, 0, 1]] 1 ''playing'')) 1 0 3 = Some 0 \<and>
   getCell (gmap (match51 False [[0, 0, 0, 0], [0, 0, 0, 0], [1, 0, 0, 0], [1, 1, 0, 0], [1, 0, 0, 1]] 1 ''lost'')) 1 0 3 = Some 0"
proof -
  let ?g1 = "match51 True [[0, 0, 0, 0], [0, 0, 0, 0], [1, 0, 0, 0], [1, 1, 0, 1], [1, 0, 0, 1]] 1 ''playing''"
  let ?g2 = "match51 False [[0, 0, 0, 0], [0, 0, 0, 0], [1, 0, 0, 0], [1, 1, 0, 0], [1, 0, 0, 1]] 1 ''lost''"
  have c1: "cellClicked env0 5 0 0 [(3/5, 0)] (initialize 5 1 1) = Some (True, ?g1)" by code_simp
  have c2: "cellClicked env0 5 3 0 [] ?g1 = Some (False, ?g2)" by code_simp
  have h1: "engine_step\<^sup>*\<^sup>* (initialize 5 1 1) ?g1"
    using step_cellClicked[OF c1] by (rule r_into_rtranclp)
  have h2: "engine_step\<^sup>*\<^sup>* ?g1 ?g2"
    using step_cellClicked[OF c2] by (rule r_into_rtranclp)
  have h3: "getCell (gmap ?g1) 1 0 3 = Some 0" by code_simp
  from covered_one_way[OF h1 h2 h3] have c: "getCell (gmap ?g2) 1 0 3 = Some 0" by (rule conjunct1)
  from h1 h2 h3 c show ?thesis by blast
qed

subsection \<open>Mines stay covered\<close>

lemma counts_block_zero_safe:
  assumes "counts_block m"
  shows "zero_safe m"
  unfolding zero_safe_def
proof (clarify)
  fix a b dx dy
  assume ab: "(a, b) \<in> set (cells_yx m)" and z: "getCell m a b 0 = Some 0"
    and d: "(dx, dy) \<in> set offsets9" and bomb: "getCell m (a + dx) (b + dy) 1 = Some 1"
  have "getCell m a b 0 = Some (int (blockMines m a b))"
    using assms ab unfolding counts_block_def by blast
  then have "blockMines m a b = 0" using z by simp
  then have "filter (\<lambda>(dx, dy). getCell m (a + dx) (b + dy) 1 = Some 1) offsets9 = []"
    by (simp add: blockMines_def)
  then show False using d bomb by (auto simp: filter_empty_conv)
qed

lemma counts_block_bomb:
  assumes "counts_block m" "(a, b) \<in> set (bombCells m)"
  shows "\<exists>n. getCell m a b 0 = Some n \<and> 1 \<le> n"
proof -
  have ab: "(a, b) \<in> set (cells_yx m)" and bomb: "getCell m a b 1 = Some 1"
    using assms(2) by (auto simp: bombCells_def)
  have "(0, 0) \<in> set offsets9" by (simp add: in_offsets9)
  then have "(0, 0) \<in> set (filter (\<lambda>(dx, dy). getCell m (a + dx) (b + dy) 1 = Some 1) offsets9)"
    using bomb by simp
  then have "0 < blockMines m a b"
    unfolding blockMines_def by (metis length_pos_if_in_set)
  moreover have "getCell m a b 0 = Some (int (blockMines m a b))"
    using assms(1) ab unfolding counts_block_def by blast
  ultimately show ?thesis by simp
qed

text \<open>
  Claim C10. On a board whose numbers count the mines of each 3 by 3 block (as
  \<open>generateBombs\<close> leaves them), in a started match: every mined cell has a number
  of at least one; a reveal of a cell without a mine leaves the covered mark of every
  mined cell as it was and does not set the status to lost; and a reveal sets the
  status to lost only when the clicked cell itself is mined.
\<close>

theorem reveal_spares_mines:
  assumes "wf_map (gmap g)" and "counts_block (gmap g)" and "started g"
    and "cellClicked e depth x y draws g = Some (r, g')"
  shows "(\<forall>(a, b) \<in> set (bombCells (gmap g)). \<exists>n. getCell (gmap g) a b 0 = Some n \<and> 1 \<le> n) \<and>
         (getCell (gmap g) x y 1 \<noteq> Some 1 \<longrightarrow>
            (\<forall>(a, b) \<in> set (bombCells (gmap g)).
               getCell (gmap g') a b 3 = getCell (gmap g) a b 3) \<and>
            (status g' = status g \<or> status g' = ''won'')) \<and>
         (status g' = ''lost'' \<longrightarrow> status g = ''lost'' \<or> getCell (gmap g) x y 1 = Some 1)"
proof -
  have one: "\<forall>(a, b) \<in> set (bombCells (gmap g)). \<exists>n. getCell (gmap g) a b 0 = Some n \<and> 1 \<le> n"
    using counts_block_bomb[OF assms(2)] by blast
  have rest: "(getCell (gmap g) x y 1 \<noteq> Some 1 \<longrightarrow>
            (\<forall>(a, b) \<in> set (bombCells (gmap g)).
               getCell (gmap g') a b 3 = getCell (gmap g) a b 3) \<and>
            (status g' = status g \<or> status g' = ''won'')) \<and>
         (status g' = ''lost'' \<longrightarrow> status g = ''lost'' \<or> getCell (gmap g) x y 1 = Some 1)"
    using assms(4)
  proof (cases rule: cellClicked_cases)
    case blocked
    then show ?thesis by simp
  next
    case (flagged g1)
    then show ?thesis using assms(3) by simp
  next
    case (bomb g1)
    then show ?thesis using assms(3) by simp
  next
    case (uncovered g1)
    then show ?thesis using assms(3) by simp
  next
    case (reveal g1 m)
    have g1: "g1 = g" using reveal(2) assms(3) by simp
    obtain cs where run: "floodFill_log depth (gmap g) x y = Some (m, cs)"
      using reveal(6) by (auto simp: floodFill_def g1)
    note p = floodFill_log_props[OF assms(1) run]
    have nb: "getCell (gmap g) x y 1 \<noteq> Some 1" using reveal(4) by (simp add: g1)
    note clean = floodFill_log_no_bomb[OF assms(1) run counts_block_zero_safe[OF assms(2)] nb]
    have gm: "gmap g' = m" unfolding reveal(8) by (simp add: finish_simps)
    have st: "status g' = status g \<or> status g' = ''won''"
      unfolding reveal(8) by (simp add: finish_simps g1)
    have "getCell m a b 3 = getCell (gmap g) a b 3" if "(a, b) \<in> set (bombCells (gmap g))" for a b
    proof -
      have b1: "getCell (gmap g) a b 1 = Some 1" using that by (simp add: bombCells_def)
      then have "(a, b) \<notin> set cs" using clean by blast
      moreover have "\<not> (a = x \<and> b = y)" using b1 nb by auto
      ultimately show ?thesis using p(7)[of a b] by auto
    qed
    then show ?thesis using st nb gm by auto
  qed
  from one rest show ?thesis by blast
qed

theorem reveal_spares_mines_witness:
  "wf_map (gmap (match51 True [[0, 0, 0, 1], [0, 0, 0, 1], [1, 0, 0, 1], [1, 1, 0, 1], [1, 0, 0, 1]] 1 ''playing'')) \<and>
   counts_block (gmap (match51 True [[0, 0, 0, 1], [0, 0, 0, 1], [1, 0, 0, 1], [1, 1, 0, 1], [1, 0, 0, 1]] 1 ''playing'')) \<and>
   started (match51 True [[0, 0, 0, 1], [0, 0, 0, 1], [1, 0, 0, 1], [1, 1, 0, 1], [1, 0, 0, 1]] 1 ''playing'') \<and>
   cellClicked env0 5 0 0 []
       (match51 True [[0, 0, 0, 1], [0, 0, 0, 1], [1, 0, 0, 1], [1, 1, 0, 1], [1, 0, 0, 1]] 1 ''playing'') =
     Some (True, match51 True [[0, 0, 0, 0], [0, 0, 0, 0], [1, 0, 0, 0], [1, 1, 0, 1], [1, 0, 0, 1]] 1 ''playing'') \<and>
   bombCells (gmap (match51 True [[0, 0, 0, 1], [0, 0, 0, 1], [1, 0, 0, 1], [1, 1, 0, 1], [1, 0, 0, 1]] 1 ''playing'')) = [(3, 0)] \<and>
   getCell (gmap (match51 True [[0, 0, 0, 0], [0, 0, 0, 0], [1, 0, 0, 0], [1, 1, 0, 1], [1, 0, 0, 1]] 1 ''playing'')) 3 0 3 =
     getCell (gmap (match51 True [[0, 0, 0, 1], [0, 0, 0, 1], [1, 0, 0, 1], [1, 1, 0, 1], [1, 0, 0, 1]] 1 ''playing'')) 3 0 3"
proof -
  let ?g = "match51 True [[0, 0, 0, 1], [0, 0, 0, 1], [1, 0, 0, 1], [1, 1, 0, 1], [1, 0, 0, 1]] 1 ''playing''"
  let ?g' = "match51 True [[0, 0, 0, 0], [0, 0, 0, 0], [1, 0, 0, 0], [1, 1, 0, 1], [1, 0, 0, 1]] 1 ''playing''"
  have h1: "wf_map (gmap ?g)" by code_simp
  have h2: "counts_block (gmap ?g)" by code_simp
  have h3: "started ?g" by code_simp
  have h4: "cellClicked env0 5 0 0 [] ?g = Some (True, ?g')" by code_simp
  have b: "bombCells (gmap ?g) = [(3, 0)]" by code_simp
  have nb: "getCell (gmap ?g) 0 0 1 \<noteq> Some 1" by code_simp
  from reveal_spares_mines[OF h1 h2 h3 h4] nb
  have "\<forall>(a, b) \<in> set (bombCells (gmap ?g)). getCell (gmap ?g') a b 3 = getCell (gmap ?g) a b 3"
    by blast
  then have c: "getCell (gmap ?g') 3 0 3 = getCell (gmap ?g) 3 0 3" unfolding b by simp
  from h1 h2 h3 h4 b c show ?thesis by blast
qed

subsection \<open>After the end of a match\<close>










subsection \<open>The flag budget\<close>

text \<open>The flag budget never goes below zero.\<close>

lemma flags_cellRightClicked:
  "0 \<le> flags g \<Longrightarrow> 0 \<le> flags (cellRightClicked x y g) \<and> bombs (cellRightClicked x y g) = bombs g"
  by (auto simp: cellRightClicked_def placeFlag_def removeFlag_def)

lemma flags_start:
  "start x y draws g = Some g1 \<Longrightarrow> flags g1 = bombs g \<and> bombs g1 = bombs g"
  by (auto simp: start_def Let_def split: option.splits)

lemma flags_cellClicked:
  assumes "cellClicked e depth x y draws g = Some (r, g')"
  shows "(flags g' = flags g \<or> flags g' = bombs g) \<and> bombs g' = bombs g"
proof -
  have pre: "(flags g1 = flags g \<or> flags g1 = bombs g) \<and> bombs g1 = bombs g"
    if "(if \<not> started g then start x y draws g else Some g) = Some g1" for g1
    using that flags_start[of x y draws g g1] by (auto split: if_splits)
  from assms show ?thesis
    by (cases rule: cellClicked_cases) (use pre in \<open>auto simp: finish_simps\<close>)
qed

lemma flags_nonneg_step:
  assumes "engine_step g g'" "0 \<le> bombs g" "0 \<le> flags g"
  shows "0 \<le> bombs g' \<and> 0 \<le> flags g'"
  using assms
proof (cases rule: engine_step.cases)
  case (step_cellClicked e depth x y draws r)
  then show ?thesis using flags_cellClicked assms(2,3) by fastforce
next
  case (step_cellRightClicked x y)
  then show ?thesis using flags_cellRightClicked[OF assms(3)] assms(2) by simp
next
  case (step_start x y draws)
  then show ?thesis using flags_start assms(2) by fastforce
qed (use assms in \<open>simp_all add: finish_simps\<close>)

lemma flags_never_negative:
  assumes "0 \<le> bombCount" and "engine_step\<^sup>*\<^sup>* (initialize width height bombCount) g"
  shows "0 \<le> flags g"
proof -
  have "0 \<le> bombs g \<and> 0 \<le> flags g"
    using assms(2)
  proof (induction rule: rtranclp_induct)
    case base
    then show ?case using assms(1) by (simp add: initialize_def)
  next
    case (step g1 g2)
    then show ?case using flags_nonneg_step by blast
  qed
  then show ?thesis by simp
qed

text \<open>
  Claim C5: the lower bound holds, the upper bound does not. \<open>Game.start\<close> sets the
  budget back to the bomb count although a flag placed before the first reveal is still
  on the board; taking that flag off then raises the budget to two with one bomb.
\<close>

theorem flag_budget_exceeds_bombs:
  "cellRightClicked 4 0 (initialize 5 1 1) =
     match51 False [[0, 0, 0, 1], [0, 0, 0, 1], [0, 0, 0, 1], [0, 0, 0, 1], [0, 0, 1, 1]] 0 '''' \<and>
   cellClicked env0 5 0 0 [(3/5, 0)]
       (match51 False [[0, 0, 0, 1], [0, 0, 0, 1], [0, 0, 0, 1], [0, 0, 0, 1], [0, 0, 1, 1]] 0 '''') =
     Some (True, match51 True [[0, 0, 0, 0], [0, 0, 0, 0], [1, 0, 0, 0], [1, 1, 0, 1], [1, 0, 1, 1]] 1 ''playing'') \<and>
   cellRightClicked 4 0
       (match51 True [[0, 0, 0, 0], [0, 0, 0, 0], [1, 0, 0, 0], [1, 1, 0, 1], [1, 0, 1, 1]] 1 ''playing'') =
     match51 True [[0, 0, 0, 0], [0, 0, 0, 0], [1, 0, 0, 0], [1, 1, 0, 1], [1, 0, 0, 1]] 2 ''playing'' \<and>
   flags (match51 True [[0, 0, 0, 0], [0, 0, 0, 0], [1, 0, 0, 0], [1, 1, 0, 1], [1, 0, 0, 1]] 2 ''playing'') = 2 \<and>
   bombs (match51 True [[0, 0, 0, 0], [0, 0, 0, 0], [1, 0, 0, 0], [1, 1, 0, 1], [1, 0, 0, 1]] 2 ''playing'') = 1"
  by code_simp

subsection \<open>Reveal of a flagged cell\<close>

text \<open>A reveal of a flagged cell on a started match: nothing changes.\<close>

lemma flagged_reveal_started:
  "started g \<Longrightarrow> getCell (gmap g) x y 2 = Some 1 \<Longrightarrow>
   cellClicked e depth x y draws g = Some (False, g)"
  by (simp add: cellClicked_started)

text \<open>
  Claim C6: on a started match a reveal of a flagged cell changes nothing, but
  \<open>cellClicked\<close> calls \<open>Game.start\<close> before it looks at the flag. As the first
  reveal of a match, the click on the flagged cell \<open>(0, 0)\<close> returns false and
  yet places the bomb, writes the numbers, starts the match and resets the budget.
\<close>

theorem flagged_first_reveal_places_bombs:
  "cellRightClicked 0 0 (initialize 5 1 1) =
     match51 False [[0, 0, 1, 1], [0, 0, 0, 1], [0, 0, 0, 1], [0, 0, 0, 1], [0, 0, 0, 1]] 0 '''' \<and>
   cellClicked env0 5 0 0 [(3/5, 0)]
       (match51 False [[0, 0, 1, 1], [0, 0, 0, 1], [0, 0, 0, 1], [0, 0, 0, 1], [0, 0, 0, 1]] 0 '''') =
     Some (False, match51 True [[0, 0, 1, 1], [0, 0, 0, 1], [1, 0, 0, 1], [1, 1, 0, 1], [1, 0, 0, 1]] 1 ''playing'') \<and>
   bombCells (board51 [[0, 0, 1, 1], [0, 0, 0, 1], [0, 0, 0, 1], [0, 0, 0, 1], [0, 0, 0, 1]]) = [] \<and>
   bombCells (board51 [[0, 0, 1, 1], [0, 0, 0, 1], [1, 0, 0, 1], [1, 1, 0, 1], [1, 0, 0, 1]]) = [(3, 0)]"
  by code_simp

subsection \<open>Coordinates outside the map\<close>

text \<open>
  Claim C9, as stated, fails where the match has not started: \<open>cellClicked\<close> calls
  \<open>Game.start\<close> before any test of the coordinates, so a reveal at \<open>(-3, 0)\<close> on a
  new board places the bomb and starts the match.
\<close>

theorem out_of_bounds_reveal_counterexample:
  "\<not> inMap (gmap (initialize 5 1 1)) (-3) 0 \<and>
   cellClicked env0 5 (-3) 0 [(3/5, 0)] (initialize 5 1 1) =
     Some (False, match51 True [[0, 0, 0, 1], [0, 0, 0, 1], [1, 0, 0, 1], [1, 1, 0, 1], [1, 0, 0, 1]] 1 ''playing'') \<and>
   gmap (initialize 5 1 1) = board51 [[0, 0, 0, 1], [0, 0, 0, 1], [0, 0, 0, 1], [0, 0, 0, 1], [0, 0, 0, 1]] \<and>
   bombCells (board51 [[0, 0, 0, 1], [0, 0, 0, 1], [1, 0, 0, 1], [1, 1, 0, 1], [1, 0, 0, 1]]) = [(3, 0)]"
  by code_simp

text \<open>
  Claim C9, amended. Outside the map \<open>setCell\<close> leaves the map as it is and
  \<open>getCell\<close> returns no value. A reveal there returns false and changes nothing when
  the match has started (or the turn is blocked). On a match that has not started it
  returns false after \<open>Game.start\<close>, and its whole effect is that of \<open>Game.start\<close>:
  the mines are placed, no covered or flag mark changes.
\<close>

theorem out_of_bounds_noop:
  assumes "wf_map (gmap g)" and "\<not> inMap (gmap g) x y"
  shows "setCell (gmap g) x y i v = gmap g \<and> getCell (gmap g) x y i = None \<and>
         (started g \<or> turn_blocked e \<longrightarrow> cellClicked e depth x y draws g = Some (False, g)) \<and>
         (\<not> started g \<longrightarrow> \<not> turn_blocked e \<longrightarrow>
            cellClicked e depth x y draws g = map_option (Pair False) (start x y draws g)) \<and>
         (\<forall>g1 a b. start x y draws g = Some g1 \<longrightarrow>
            getCell (gmap g1) a b 2 = getCell (gmap g) a b 2 \<and>
            getCell (gmap g1) a b 3 = getCell (gmap g) a b 3)"
proof -
  have none: "getCell (gmap g) x y j = None" for j using assms(2) by (simp add: getCell_def)
  have a: "setCell (gmap g) x y i v = gmap g" using assms(2) by (simp add: setCell_def)
  have b: "cellClicked e depth x y draws g = Some (False, g)" if "started g \<or> turn_blocked e"
  proof (cases "turn_blocked e")
    case True
    then show ?thesis by (simp add: cellClicked_def)
  next
    case False
    then have "started g" using that by simp
    then show ?thesis by (simp add: cellClicked_started none)
  qed
  have c: "cellClicked e depth x y draws g = map_option (Pair False) (start x y draws g)"
    if ns: "\<not> started g" and nb: "\<not> turn_blocked e"
  proof (cases "start x y draws g")
    case None
    then show ?thesis using ns nb by (simp add: cellClicked_def)
  next
    case (Some g1)
    note f = start_frame[OF assms(1) Some]
    have "\<not> inMap (gmap g1) x y" using assms(2) f(2,3) by (simp add: inMap_def)
    then have "getCell (gmap g1) x y j = None" for j by (simp add: getCell_def)
    then show ?thesis using ns nb Some by (simp add: cellClicked_def)
  qed
  have d: "\<forall>g1 a b. start x y draws g = Some g1 \<longrightarrow>
            getCell (gmap g1) a b 2 = getCell (gmap g) a b 2 \<and>
            getCell (gmap g1) a b 3 = getCell (gmap g) a b 3"
    using start_frame(4,5)[OF assms(1)] by blast
  from a none b c d show ?thesis by blast
qed

theorem out_of_bounds_noop_witness:
  "wf_map (gmap (match51 True [[0, 0, 0, 0], [0, 0, 0, 0], [1, 0, 0, 0], [1, 1, 0, 1], [1, 0, 0, 1]] 1 ''playing'')) \<and>
   \<not> inMap (gmap (match51 True [[0, 0, 0, 0], [0, 0, 0, 0], [1, 0, 0, 0], [1, 1, 0, 1], [1, 0, 0, 1]] 1 ''playing'')) 5 0 \<and>
   started (match51 True [[0, 0, 0, 0], [0, 0, 0, 0], [1, 0, 0, 0], [1, 1, 0, 1], [1, 0, 0, 1]] 1 ''playing'') \<and>
   cellClicked env0 5 5 0 []
       (match51 True [[0, 0, 0, 0], [0, 0, 0, 0], [1, 0, 0, 0], [1, 1, 0, 1], [1, 0, 0, 1]] 1 ''playing'') =
     Some (False, match51 True [[0, 0, 0, 0], [0, 0, 0, 0], [1, 0, 0, 0], [1, 1, 0, 1], [1, 0, 0, 1]] 1 ''playing'')"
proof -
  let ?g = "match51 True [[0, 0, 0, 0], [0, 0, 0, 0], [1, 0, 0, 0], [1, 1, 0, 1], [1, 0, 0, 1]] 1 ''playing''"
  have h1: "wf_map (gmap ?g)" by code_simp
  have h2: "\<not> inMap (gmap ?g) 5 0" by code_simp
  have h3: "started ?g" by code_simp
  from out_of_bounds_noop[OF h1 h2, where e = env0 and depth = 5 and draws = "[]"] h3
  have c: "cellClicked env0 5 5 0 [] ?g = Some (False, ?g)" by blast
  from h1 h2 h3 c show ?thesis by blast
qed

end
